theory Spec2Isabelle
  imports Complex_Main
begin

section \<open>The arbitrage matcher of \<open>src/arbitrage.cpp\<close>\<close>

text \<open>
  The embedding follows the C++ source function by function.

  Prices. The fields of type \<open>double\<close> that hold fee, price, profit per unit and net
  profit are embedded as exact real numbers, and the arithmetic of lines 80 to 88 on them
  is exact: rounding, infinities and NaN of that arithmetic are outside the model.

  Volumes. The fields of type \<open>long\<close> are embedded as integers. The source passes the
  traded quantity to \<open>update_volume\<close> as a \<open>double\<close> and subtracts it from a \<open>long\<close>
  (line 111), so the volume goes from \<open>long\<close> to \<open>double\<close>, through a subtraction of
  doubles, and back to \<open>long\<close>. The model follows it with the rounding of IEEE 754
  binary64 (53 bits of significand, round to nearest, ties to even): \<open>double_of_long\<close>,
  \<open>to_double\<close> and \<open>long_of_double\<close>. These conversions are exact while the numbers have
  a magnitude of at most \<open>2^53\<close>, and round beyond.

  Containers. \<open>std::unordered_map<std::string, Entry>\<close> is embedded as an association
  list in the map's iteration order: the source never inserts or erases, so that order
  is the same in every scan and in every \<open>update_volume\<close> of one run. The keys are kept
  although the algorithm never reads them.
\<close>

subsection \<open>Data model\<close>

record Entry =
  exchange :: string
  fee :: real
  price :: real
  volume :: int

record Trade =
  buy_exchange :: string
  sell_exchange :: string
  buy_fee :: real
  sell_fee :: real
  buy_price :: real
  sell_price :: real
  volume :: int
  profit_per_unit :: real
  net_profit :: real

type_synonym book = "(string \<times> Entry) list"

subsection \<open>The scan for the best trade (lines 63 to 95)\<close>

definition effective_cost :: "Entry \<Rightarrow> real" where
  "effective_cost ask = price ask * (1 + fee ask)"

definition effective_proceed :: "Entry \<Rightarrow> real" where
  "effective_proceed bid = price bid * (1 - fee bid)"

text \<open>
  The body of the inner loop for one ask and one bid. The state is the pair
  \<open>(best_trade, best_profit_per_unit)\<close> of the source.
\<close>

definition consider_bid :: "Entry \<Rightarrow> Entry \<Rightarrow> Trade option \<times> real \<Rightarrow> Trade option \<times> real" where
  "consider_bid ask bid st =
     (if Entry.volume bid \<le> 0 then st
      else if exchange ask = exchange bid then st
      else
        let profit = effective_proceed bid - effective_cost ask in
        if profit > snd st then
          let trade_qty = min (Entry.volume ask) (Entry.volume bid);
              net = profit * real_of_int trade_qty
          in (Some \<lparr> buy_exchange = exchange ask, sell_exchange = exchange bid,
                     buy_fee = fee ask, sell_fee = fee bid,
                     buy_price = price ask, sell_price = price bid,
                     volume = trade_qty, profit_per_unit = profit, net_profit = net \<rparr>,
              profit)
        else st)"

fun scan_bids :: "Entry \<Rightarrow> book \<Rightarrow> Trade option \<times> real \<Rightarrow> Trade option \<times> real" where
  "scan_bids ask [] st = st"
| "scan_bids ask ((b_key, bid) # bids) st = scan_bids ask bids (consider_bid ask bid st)"

fun scan_asks :: "book \<Rightarrow> book \<Rightarrow> Trade option \<times> real \<Rightarrow> Trade option \<times> real" where
  "scan_asks [] bids st = st"
| "scan_asks ((a_key, ask) # asks) bids st =
     scan_asks asks bids (if Entry.volume ask \<le> 0 then st else scan_bids ask bids st)"

definition best_trade :: "book \<Rightarrow> book \<Rightarrow> Trade option" where
  "best_trade bids asks = fst (scan_asks asks bids (None, 0))"

subsection \<open>The volume update (lines 105 to 120)\<close>

text \<open>
  Rounding of a real number to the nearest integer, ties to the even one, and with it the
  rounding of a real number to binary64: the number is scaled by the unit in the last
  place of its binade, so that its significand lies between \<open>2^52\<close> and \<open>2^53\<close>, rounded,
  and scaled back. The exponent range of binary64 plays no part: the numbers rounded
  here are integers of magnitude between 1 and \<open>2^64\<close>.
\<close>

definition round_half_even :: "real \<Rightarrow> int" where
  "round_half_even x =
     (let f = \<lfloor>x\<rfloor>; d = x - of_int f
      in if d < 1 / 2 then f else if 1 / 2 < d then f + 1 else if even f then f else f + 1)"

definition to_double :: "real \<Rightarrow> real" where
  "to_double x =
     (if x = 0 then 0
      else let ulp = 2 powr (of_int \<lfloor>log 2 \<bar>x\<bar>\<rfloor> - 52)
           in of_int (round_half_even (x / ulp)) * ulp)"

text \<open>Conversion of a \<open>long\<close> to \<open>double\<close>.\<close>

definition double_of_long :: "int \<Rightarrow> real" where
  "double_of_long n = to_double (real_of_int n)"

text \<open>
  Conversion of a \<open>double\<close> to \<open>long\<close>: truncation towards zero. For a value outside
  the range of \<open>long\<close> C++ leaves the conversion undefined; the model takes the result of
  the x86-64 conversion instruction, which is \<open>LONG_MIN\<close>.
\<close>

definition long_of_double :: "real \<Rightarrow> int" where
  "long_of_double x =
     (let t = (if 0 \<le> x then \<lfloor>x\<rfloor> else \<lceil>x\<rceil>)
      in if - (2 ^ 63) \<le> t \<and> t < 2 ^ 63 then t else - (2 ^ 63))"

text \<open>
  Line 111, \<open>entry.volume -= trade_qty\<close> with a \<open>long\<close> on the left and a \<open>double\<close> on
  the right: the volume is converted to \<open>double\<close>, the doubles are subtracted, and the
  difference is converted to \<open>long\<close>.
\<close>

definition subtract_quantity :: "int \<Rightarrow> real \<Rightarrow> int" where
  "subtract_quantity vol trade_qty =
     long_of_double (to_double (double_of_long vol - trade_qty))"

fun update_volume :: "book \<Rightarrow> string \<Rightarrow> real \<Rightarrow> real \<Rightarrow> real \<Rightarrow> book" where
  "update_volume [] ex f p trade_qty = []"
| "update_volume ((k, entry) # book) ex f p trade_qty =
     (if exchange entry = ex \<and> fee entry = f \<and> price entry = p
      then (k, entry\<lparr> Entry.volume := subtract_quantity (Entry.volume entry) trade_qty \<rparr>) # book
      else (k, entry) # update_volume book ex f p trade_qty)"

subsection \<open>The main loop (lines 56 to 124)\<close>

text \<open>
  One pass through the body of \<open>while (true)\<close>: \<open>None\<close> is the \<open>break\<close> of line 99,
  otherwise the recorded trade with the two books after both calls of
  \<open>update_volume\<close> (asks by the buy side of the trade, bids by its sell side). The
  quantity of the trade, a \<open>long\<close>, becomes the \<open>double\<close> parameter \<open>trade_qty\<close>.
\<close>

definition iteration :: "book \<Rightarrow> book \<Rightarrow> (Trade \<times> book \<times> book) option" where
  "iteration bids asks =
     (case best_trade bids asks of
        None \<Rightarrow> None
      | Some t \<Rightarrow>
          let asks' = update_volume asks (buy_exchange t) (buy_fee t) (buy_price t)
                        (double_of_long (Trade.volume t));
              bids' = update_volume bids (sell_exchange t) (sell_fee t) (sell_price t)
                        (double_of_long (Trade.volume t))
          in Some (t, bids', asks'))"

text \<open>
  The loop has no bound of its own, so it is a partial function: the value \<open>None\<close>
  stands for a run that never reaches \<open>break\<close>. A finished run returns the trades
  together with the two books as the caller finds them afterwards.
\<close>

partial_function (option) arbitrage_loop ::
  "book \<Rightarrow> book \<Rightarrow> Trade list \<Rightarrow> (Trade list \<times> book \<times> book) option" where
  "arbitrage_loop bids asks trades =
     (case iteration bids asks of
        None \<Rightarrow> Some (trades, bids, asks)
      | Some (t, bids', asks') \<Rightarrow> arbitrage_loop bids' asks' (trades @ [t]))"

definition find_best_arbitrage :: "book \<Rightarrow> book \<Rightarrow> (Trade list \<times> book \<times> book) option" where
  "find_best_arbitrage bids asks = arbitrage_loop bids asks []"

subsection \<open>Notions used to state the properties\<close>

text \<open>The identity of an entry: the tuple by which \<open>update_volume\<close> finds it again.\<close>

definition identity :: "Entry \<Rightarrow> string \<times> real \<times> real" where
  "identity e = (exchange e, fee e, price e)"

definition unique_identity :: "book \<Rightarrow> bool" where
  "unique_identity b = distinct (map (\<lambda>ke. identity (snd ke)) b)"

definition buy_identity :: "Trade \<Rightarrow> string \<times> real \<times> real" where
  "buy_identity t = (buy_exchange t, buy_fee t, buy_price t)"

definition sell_identity :: "Trade \<Rightarrow> string \<times> real \<times> real" where
  "sell_identity t = (sell_exchange t, sell_fee t, sell_price t)"

text \<open>Profit per unit of a pair, and the trade that line 89 builds from it.\<close>

definition pair_profit :: "Entry \<times> Entry \<Rightarrow> real" where
  "pair_profit c = effective_proceed (snd c) - effective_cost (fst c)"

definition trade_of :: "Entry \<times> Entry \<Rightarrow> Trade" where
  "trade_of c =
     \<lparr> buy_exchange = exchange (fst c), sell_exchange = exchange (snd c),
       buy_fee = fee (fst c), sell_fee = fee (snd c),
       buy_price = price (fst c), sell_price = price (snd c),
       volume = min (Entry.volume (fst c)) (Entry.volume (snd c)),
       profit_per_unit = pair_profit c,
       net_profit = pair_profit c * real_of_int (min (Entry.volume (fst c)) (Entry.volume (snd c))) \<rparr>"

text \<open>
  The pairs that a scan reaches past its three \<open>continue\<close> statements, in the order in
  which the nested loops enumerate them.
\<close>

definition bid_candidates :: "Entry \<Rightarrow> book \<Rightarrow> (Entry \<times> Entry) list" where
  "bid_candidates ask bids =
     map (\<lambda>kb. (ask, snd kb))
       (filter (\<lambda>kb. 0 < Entry.volume (snd kb) \<and> exchange ask \<noteq> exchange (snd kb)) bids)"

definition candidates :: "book \<Rightarrow> book \<Rightarrow> (Entry \<times> Entry) list" where
  "candidates asks bids =
     concat (map (\<lambda>ka. bid_candidates (snd ka) bids)
       (filter (\<lambda>ka. 0 < Entry.volume (snd ka)) asks))"

definition total_volume :: "book \<Rightarrow> int" where
  "total_volume b = sum_list (map (\<lambda>ke. Entry.volume (snd ke)) b)"

definition nonneg_volumes :: "book \<Rightarrow> bool" where
  "nonneg_volumes b = list_all (\<lambda>ke. 0 \<le> Entry.volume (snd ke)) b"

text \<open>
  Quantity that a trade list takes from the entry of a given identity, on the side named
  by \<open>side\<close> (\<open>buy_identity\<close> for asks, \<open>sell_identity\<close> for bids).
\<close>

definition consumed :: "(Trade \<Rightarrow> string \<times> real \<times> real) \<Rightarrow> Trade list \<Rightarrow> string \<times> real \<times> real \<Rightarrow> int" where
  "consumed side ts x = sum_list (map Trade.volume (filter (\<lambda>t. side t = x) ts))"

text \<open>
  Volume conservation between an original book \<open>b0\<close> and a final book \<open>b\<close>: entry by
  entry the identity is kept, the consumed quantity does not exceed the original volume,
  and the final volume is the original volume minus the consumed quantity and not
  negative.
\<close>

definition conserved :: "(Trade \<Rightarrow> string \<times> real \<times> real) \<Rightarrow> Trade list \<Rightarrow> book \<Rightarrow> book \<Rightarrow> bool" where
  "conserved side ts b0 b \<longleftrightarrow>
     length b = length b0 \<and>
     (\<forall>k<length b0.
        identity (snd (b ! k)) = identity (snd (b0 ! k)) \<and>
        consumed side ts (identity (snd (b0 ! k))) \<le> Entry.volume (snd (b0 ! k)) \<and>
        Entry.volume (snd (b ! k)) =
          Entry.volume (snd (b0 ! k)) - consumed side ts (identity (snd (b0 ! k))) \<and>
        0 \<le> Entry.volume (snd (b ! k)))"

text \<open>
  A book keeps its entries, keys, exchanges, fees and prices, and no entry that a scan
  skipped as exhausted has a positive volume afterwards.
\<close>

definition entries_kept :: "book \<Rightarrow> book \<Rightarrow> bool" where
  "entries_kept b b' \<longleftrightarrow>
     list_all2 (\<lambda>x y. fst y = fst x \<and> exchange (snd y) = exchange (snd x) \<and>
                       fee (snd y) = fee (snd x) \<and> price (snd y) = price (snd x) \<and>
                       (0 < Entry.volume (snd y) \<longrightarrow> 0 < Entry.volume (snd x))) b b'"

text \<open>
  A book keeps its entries, keys, exchanges, fees and prices, and no volume is higher
  than before.
\<close>

definition volumes_lowered :: "book \<Rightarrow> book \<Rightarrow> bool" where
  "volumes_lowered b b' \<longleftrightarrow>
     list_all2 (\<lambda>x y. fst y = fst x \<and> exchange (snd y) = exchange (snd x) \<and>
                       fee (snd y) = fee (snd x) \<and> price (snd y) = price (snd x) \<and>
                       Entry.volume (snd y) \<le> Entry.volume (snd x)) b b'"

text \<open>Every entry is as it was, unless its identity is one of the given ones.\<close>

definition untouched_unless :: "(string \<times> real \<times> real) set \<Rightarrow> book \<Rightarrow> book \<Rightarrow> bool" where
  "untouched_unless ids b b' \<longleftrightarrow> list_all2 (\<lambda>x y. y = x \<or> identity (snd x) \<in> ids) b b'"

text \<open>
  The pair at position \<open>i\<close> of the enumeration is the one a scan keeps: its profit is
  positive, no pair has a greater one, and every pair enumerated before it has a
  strictly smaller one.
\<close>

definition first_best :: "(Entry \<times> Entry) list \<Rightarrow> nat \<Rightarrow> bool" where
  "first_best cs i \<longleftrightarrow>
     i < length cs \<and> 0 < pair_profit (cs ! i) \<and>
     (\<forall>j<length cs. pair_profit (cs ! j) \<le> pair_profit (cs ! i)) \<and>
     (\<forall>j<i. pair_profit (cs ! j) < pair_profit (cs ! i))"

text \<open>The scan as one step per enumerated pair.\<close>

definition adopt :: "Entry \<times> Entry \<Rightarrow> Trade option \<times> real \<Rightarrow> Trade option \<times> real" where
  "adopt c st = (if pair_profit c > snd st then (Some (trade_of c), pair_profit c) else st)"

text \<open>
  Books all of whose volumes the conversions between \<open>long\<close> and \<open>double\<close> keep as
  they are.
\<close>

definition exact_range :: "book \<Rightarrow> bool" where
  "exact_range b = list_all (\<lambda>ke. \<bar>Entry.volume (snd ke)\<bar> \<le> 2 ^ 53) b"

text \<open>
  Books whose volumes are values of type \<open>long\<close> that the conversion to \<open>double\<close> keeps
  as they are.
\<close>

definition double_longs :: "book \<Rightarrow> bool" where
  "double_longs b =
     list_all (\<lambda>ke. - (2 ^ 63) \<le> Entry.volume (snd ke) \<and>
                     double_of_long (Entry.volume (snd ke)) = real_of_int (Entry.volume (snd ke))) b"

text \<open>Writing a volume to the entry at one position of a book.\<close>

definition set_volume :: "book \<Rightarrow> nat \<Rightarrow> int \<Rightarrow> book" where
  "set_volume b i v = b[i := (fst (b ! i), (snd (b ! i))\<lparr> Entry.volume := v \<rparr>)]"

text \<open>Subtracting a quantity from the entry at one position of a book.\<close>

definition take_volume :: "book \<Rightarrow> nat \<Rightarrow> int \<Rightarrow> book" where
  "take_volume b i q =
     b[i := (fst (b ! i), (snd (b ! i))\<lparr> Entry.volume := Entry.volume (snd (b ! i)) - q \<rparr>)]"

text \<open>Number of entries that a scan does not skip as exhausted.\<close>

definition pos_count :: "book \<Rightarrow> nat" where
  "pos_count b = length (filter (\<lambda>ke. 0 < Entry.volume (snd ke)) b)"

subsection \<open>Concrete books\<close>

text \<open>
  The books that \<open>main\<close> builds (lines 159 to 175), listed in the order of the source
  text, and the run of the matcher on them: four trades.
\<close>

definition sample_bids :: book where
  "sample_bids =
     [(''ex1-0.00024'', \<lparr>exchange = ''ex1'', fee = 24 / 100000, price = 95 / 100, volume = 10\<rparr>),
      (''ex2-0.0005'', \<lparr>exchange = ''ex2'', fee = 5 / 10000, price = 98 / 100, volume = 10\<rparr>),
      (''ex3-0.0002'', \<lparr>exchange = ''ex3'', fee = 2 / 10000, price = 1, volume = 5\<rparr>),
      (''ex4-0.00025'', \<lparr>exchange = ''ex4'', fee = 25 / 100000, price = 102 / 100, volume = 4\<rparr>),
      (''ex5-0'', \<lparr>exchange = ''ex5'', fee = 0, price = 94 / 100, volume = 11\<rparr>)]"

definition sample_asks :: book where
  "sample_asks =
     [(''ex1-0.00024'', \<lparr>exchange = ''ex1'', fee = 24 / 100000, price = 96 / 100, volume = 50\<rparr>),
      (''ex2-0.0005'', \<lparr>exchange = ''ex2'', fee = 5 / 10000, price = 103 / 100, volume = 8\<rparr>),
      (''ex3-0.0002'', \<lparr>exchange = ''ex3'', fee = 2 / 10000, price = 101 / 100, volume = 2\<rparr>),
      (''ex4-0.00025'', \<lparr>exchange = ''ex4'', fee = 25 / 100000, price = 104 / 100, volume = 5\<rparr>),
      (''ex5-0'', \<lparr>exchange = ''ex5'', fee = 0, price = 96 / 100, volume = 3\<rparr>)]"

definition sample_trades :: "Trade list" where
  "sample_trades =
     [\<lparr>buy_exchange = ''ex5'', sell_exchange = ''ex4'', buy_fee = 0, sell_fee = 25 / 100000,
       buy_price = 96 / 100, sell_price = 102 / 100, volume = 3,
       profit_per_unit = 11949 / 200000, net_profit = 35847 / 200000\<rparr>,
      \<lparr>buy_exchange = ''ex1'', sell_exchange = ''ex4'', buy_fee = 24 / 100000, sell_fee = 25 / 100000,
       buy_price = 96 / 100, sell_price = 102 / 100, volume = 1,
       profit_per_unit = 297573 / 5000000, net_profit = 297573 / 5000000\<rparr>,
      \<lparr>buy_exchange = ''ex1'', sell_exchange = ''ex3'', buy_fee = 24 / 100000, sell_fee = 2 / 10000,
       buy_price = 96 / 100, sell_price = 1, volume = 5,
       profit_per_unit = 24731 / 625000, net_profit = 24731 / 125000\<rparr>,
      \<lparr>buy_exchange = ''ex1'', sell_exchange = ''ex2'', buy_fee = 24 / 100000, sell_fee = 5 / 10000,
       buy_price = 96 / 100, sell_price = 98 / 100, volume = 10,
       profit_per_unit = 48199 / 2500000, net_profit = 48199 / 250000\<rparr>]"

definition final_bids :: book where
  "final_bids =
     [(''ex1-0.00024'', \<lparr>exchange = ''ex1'', fee = 24 / 100000, price = 95 / 100, volume = 10\<rparr>),
      (''ex2-0.0005'', \<lparr>exchange = ''ex2'', fee = 5 / 10000, price = 98 / 100, volume = 0\<rparr>),
      (''ex3-0.0002'', \<lparr>exchange = ''ex3'', fee = 2 / 10000, price = 1, volume = 0\<rparr>),
      (''ex4-0.00025'', \<lparr>exchange = ''ex4'', fee = 25 / 100000, price = 102 / 100, volume = 0\<rparr>),
      (''ex5-0'', \<lparr>exchange = ''ex5'', fee = 0, price = 94 / 100, volume = 11\<rparr>)]"

definition final_asks :: book where
  "final_asks =
     [(''ex1-0.00024'', \<lparr>exchange = ''ex1'', fee = 24 / 100000, price = 96 / 100, volume = 34\<rparr>),
      (''ex2-0.0005'', \<lparr>exchange = ''ex2'', fee = 5 / 10000, price = 103 / 100, volume = 8\<rparr>),
      (''ex3-0.0002'', \<lparr>exchange = ''ex3'', fee = 2 / 10000, price = 101 / 100, volume = 2\<rparr>),
      (''ex4-0.00025'', \<lparr>exchange = ''ex4'', fee = 25 / 100000, price = 104 / 100, volume = 5\<rparr>),
      (''ex5-0'', \<lparr>exchange = ''ex5'', fee = 0, price = 96 / 100, volume = 0\<rparr>)]"

text \<open>
  Books with no profitable pair: the only ask costs more than the only bid pays.
\<close>

definition idle_bids :: book where
  "idle_bids = [(''ex1-0.00024'', \<lparr>exchange = ''ex1'', fee = 24 / 100000, price = 95 / 100, volume = 10\<rparr>)]"

definition idle_asks :: book where
  "idle_asks = [(''ex2-0.0005'', \<lparr>exchange = ''ex2'', fee = 5 / 10000, price = 103 / 100, volume = 8\<rparr>)]"

text \<open>
  Books in which two keys give the same identity. \<open>build_entries\<close> produces them from
  the raw keys \<open>ex1-0\<close> and \<open>ex1-0.0\<close>: \<open>parse_key\<close> reads the exchange \<open>ex1\<close> and the
  fee \<open>0\<close> from both. The two entries of each book are equal, so the run is the same
  in either iteration order. After two trades the books have the form
  \<open>dup_bids_at w\<close> and \<open>dup_asks_at v\<close> with \<open>w \<le> 0\<close> and \<open>v \<le> 0\<close>.
\<close>

definition dup_bids_at :: "int \<Rightarrow> book" where
  "dup_bids_at w =
     [(''ex2-0'', \<lparr>exchange = ''ex2'', fee = 0, price = 2, volume = w\<rparr>),
      (''ex2-0.0'', \<lparr>exchange = ''ex2'', fee = 0, price = 2, volume = 3\<rparr>)]"

definition dup_asks_at :: "int \<Rightarrow> book" where
  "dup_asks_at v =
     [(''ex1-0'', \<lparr>exchange = ''ex1'', fee = 0, price = 1, volume = v\<rparr>),
      (''ex1-0.0'', \<lparr>exchange = ''ex1'', fee = 0, price = 1, volume = 5\<rparr>)]"

definition dup_bids :: book where
  "dup_bids = dup_bids_at 3"

definition dup_asks :: book where
  "dup_asks = dup_asks_at 5"

definition dup_trade :: "int \<Rightarrow> Trade" where
  "dup_trade q =
     \<lparr>buy_exchange = ''ex1'', sell_exchange = ''ex2'', buy_fee = 0, sell_fee = 0,
      buy_price = 1, sell_price = 2, volume = q, profit_per_unit = 1, net_profit = real_of_int q\<rparr>"

text \<open>
  A single bid, to go with \<open>dup_asks_at 0\<close>: the first ask is exhausted from the start,
  the second one shares its identity.
\<close>

definition lone_bid :: "int \<Rightarrow> book" where
  "lone_bid w = [(''ex2-0'', \<lparr>exchange = ''ex2'', fee = 0, price = 2, volume = w\<rparr>)]"

text \<open>
  Books with unique identities and volumes above \<open>2^53\<close>. On \<open>wide_bids\<close> and
  \<open>wide_asks\<close> the quantity \<open>2^53 + 1\<close> reaches \<open>update_volume\<close> as \<open>2^53\<close> and the bid
  \<open>2^53 + 3\<close> is subtracted from as \<open>2^53 + 4\<close>. On \<open>tall_bids\<close> and \<open>tall_asks\<close> the
  ask \<open>2^60 + 129\<close> is subtracted from as \<open>2^60 + 256\<close>, and the difference with 3 is
  rounded to \<open>2^60 + 256\<close> again.
\<close>

definition wide_bids :: book where
  "wide_bids = [(''ex2-0'', \<lparr>exchange = ''ex2'', fee = 0, price = 2, volume = 9007199254740995\<rparr>)]"

definition wide_asks :: book where
  "wide_asks = [(''ex1-0'', \<lparr>exchange = ''ex1'', fee = 0, price = 1, volume = 9007199254740993\<rparr>)]"

definition tall_asks :: book where
  "tall_asks = [(''ex1-0'', \<lparr>exchange = ''ex1'', fee = 0, price = 1, volume = 1152921504606847105\<rparr>)]"

text \<open>Books with a negative volume, which the source accepts: one trade, total volume -90.\<close>

definition neg_bids :: book where
  "neg_bids =
     [(''ex2-0'', \<lparr>exchange = ''ex2'', fee = 0, price = 2, volume = 5\<rparr>),
      (''ex3-0'', \<lparr>exchange = ''ex3'', fee = 0, price = 2, volume = - 100\<rparr>)]"

definition neg_asks :: book where
  "neg_asks = [(''ex1-0'', \<lparr>exchange = ''ex1'', fee = 0, price = 1, volume = 5\<rparr>)]"

section \<open>Properties\<close>

subsection \<open>The scan as a fold over the valid pairs\<close>

lemma consider_bid_adopt:
  "consider_bid ask bid st =
     (if 0 < Entry.volume bid \<and> exchange ask \<noteq> exchange bid then adopt (ask, bid) st else st)"
  by (simp add: consider_bid_def adopt_def pair_profit_def trade_of_def Let_def)

lemma scan_bids_fold: "scan_bids ask bids st = fold adopt (bid_candidates ask bids) st"
  by (induction ask bids st rule: scan_bids.induct) (simp_all add: bid_candidates_def consider_bid_adopt)

lemma scan_asks_fold: "scan_asks asks bids st = fold adopt (candidates asks bids) st"
  by (induction asks bids st rule: scan_asks.induct) (simp_all add: candidates_def scan_bids_fold)

lemma adopt_apply:
  "adopt c (bt, bp) = (if bp < pair_profit c then (Some (trade_of c), pair_profit c) else (bt, bp))"
  by (simp add: adopt_def)

lemma first_best_snoc_new:
  assumes "\<forall>x\<in>set cs. pair_profit x \<le> bp" and "bp < pair_profit c" and "0 \<le> bp"
  shows "first_best (cs @ [c]) (length cs)"
  using assms by (fastforce simp: first_best_def nth_append less_Suc_eq all_set_conv_all_nth)

lemma first_best_snoc_old:
  assumes "first_best cs i" and "pair_profit c \<le> pair_profit (cs ! i)"
  shows "first_best (cs @ [c]) i"
  using assms by (auto simp: first_best_def nth_append less_Suc_eq)

lemma first_best_upper: "first_best cs i \<Longrightarrow> x \<in> set cs \<Longrightarrow> pair_profit x \<le> pair_profit (cs ! i)"
  by (auto simp: first_best_def in_set_conv_nth)

lemma fold_adopt_char:
  "(fold adopt cs (None, 0) = (None, 0) \<and> (\<forall>c\<in>set cs. pair_profit c \<le> 0)) \<or>
   (\<exists>i. first_best cs i \<and> fold adopt cs (None, 0) = (Some (trade_of (cs ! i)), pair_profit (cs ! i)))"
proof (induction cs rule: rev_induct)
  case Nil
  then show ?case by simp
next
  case (snoc c cs)
  have step: "fold adopt (cs @ [c]) (None, 0) = adopt c (fold adopt cs (None, 0))"
    by simp
  from snoc show ?case
  proof (elim disjE conjE exE)
    assume none: "fold adopt cs (None, 0) = (None, 0)" and le: "\<forall>c\<in>set cs. pair_profit c \<le> 0"
    show ?thesis
    proof (cases "0 < pair_profit c")
      case True
      with le have "first_best (cs @ [c]) (length cs)"
        by (intro first_best_snoc_new[where bp = 0]) auto
      moreover have "fold adopt (cs @ [c]) (None, 0) = (Some (trade_of c), pair_profit c)"
        using True by (simp only: step none adopt_apply if_True)
      ultimately show ?thesis by (intro disjI2 exI[of _ "length cs"]) simp
    next
      case False
      then have "fold adopt (cs @ [c]) (None, 0) = (None, 0)"
        by (simp only: step none adopt_apply if_False)
      with le False show ?thesis by auto
    qed
  next
    fix i
    assume fb: "first_best cs i"
      and st: "fold adopt cs (None, 0) = (Some (trade_of (cs ! i)), pair_profit (cs ! i))"
    show ?thesis
    proof (cases "pair_profit (cs ! i) < pair_profit c")
      case True
      have "first_best (cs @ [c]) (length cs)"
      proof (rule first_best_snoc_new[where bp = "pair_profit (cs ! i)"])
        show "\<forall>x\<in>set cs. pair_profit x \<le> pair_profit (cs ! i)"
          using fb by (blast intro: first_best_upper)
        show "pair_profit (cs ! i) < pair_profit c" by (rule True)
        show "0 \<le> pair_profit (cs ! i)" using fb by (simp add: first_best_def)
      qed
      moreover have "fold adopt (cs @ [c]) (None, 0) = (Some (trade_of c), pair_profit c)"
        using True by (simp only: step st adopt_apply if_True)
      ultimately show ?thesis by (intro disjI2 exI[of _ "length cs"]) simp
    next
      case False
      then have "first_best (cs @ [c]) i"
        using fb by (intro first_best_snoc_old) auto
      moreover have "i < length cs" using fb by (simp add: first_best_def)
      moreover have "fold adopt (cs @ [c]) (None, 0) = (Some (trade_of (cs ! i)), pair_profit (cs ! i))"
        using False by (simp only: step st adopt_apply if_False)
      ultimately show ?thesis by (intro disjI2 exI[of _ i]) (simp add: nth_append)
    qed
  qed
qed

lemma best_trade_None_iff:
  "best_trade bids asks = None \<longleftrightarrow> (\<forall>c\<in>set (candidates asks bids). pair_profit c \<le> 0)"
  using fold_adopt_char[of "candidates asks bids"]
  by (auto simp: best_trade_def scan_asks_fold first_best_def dest!: nth_mem)

lemma first_best_positive: "first_best cs i \<Longrightarrow> \<forall>c\<in>set cs. pair_profit c \<le> 0 \<Longrightarrow> False"
  unfolding first_best_def by (meson nth_mem not_less)

lemma first_best_unique: "first_best cs i \<Longrightarrow> first_best cs j \<Longrightarrow> i = j"
  unfolding first_best_def by (metis linorder_neqE_nat not_less)

lemma best_trade_Some_iff:
  "best_trade bids asks = Some t \<longleftrightarrow>
     (\<exists>i. first_best (candidates asks bids) i \<and> t = trade_of (candidates asks bids ! i))"
  using fold_adopt_char[of "candidates asks bids"]
  by (auto simp: best_trade_def scan_asks_fold dest: first_best_unique first_best_positive)

subsection \<open>Proof rules for the loop\<close>

lemma arbitrage_loop_partial:
  assumes run: "arbitrage_loop bids asks trades = Some (ts', b', a')"
    and init: "I bids asks trades"
    and step: "\<And>b a ts t b2 a2. I b a ts \<Longrightarrow> iteration b a = Some (t, b2, a2) \<Longrightarrow> I b2 a2 (ts @ [t])"
  shows "I b' a' ts' \<and> iteration b' a' = None"
proof -
  let ?Q = "\<lambda>r. I (fst (snd r)) (snd (snd r)) (fst r) \<and> iteration (fst (snd r)) (snd (snd r)) = None"
  have "I bids asks trades \<longrightarrow> ?Q (ts', b', a')"
  proof (rule arbitrage_loop.raw_induct[where P = "\<lambda>b a ts r. I b a ts \<longrightarrow> ?Q r", OF _ run])
    fix loop :: "book \<Rightarrow> book \<Rightarrow> Trade list \<Rightarrow> (Trade list \<times> book \<times> book) option"
    fix b a ts r
    assume IH: "\<And>b a ts r. loop b a ts = Some r \<Longrightarrow> I b a ts \<longrightarrow> ?Q r"
    assume body: "(case iteration b a of None \<Rightarrow> Some (ts, b, a)
                   | Some (t, b2, a2) \<Rightarrow> loop b2 a2 (ts @ [t])) = Some r"
    show "I b a ts \<longrightarrow> ?Q r"
    proof (cases "iteration b a")
      case None
      with body show ?thesis by auto
    next
      case (Some x)
      obtain t b2 a2 where x: "x = (t, b2, a2)" by (cases x)
      from body Some x have "loop b2 a2 (ts @ [t]) = Some r" by simp
      from IH[OF this] step[OF _ Some[unfolded x]] show ?thesis by blast
    qed
  qed
  with init show ?thesis by simp
qed

lemma arbitrage_loop_total:
  fixes m :: "book \<Rightarrow> book \<Rightarrow> nat"
  assumes init: "I bids asks trades"
    and step: "\<And>b a ts t b2 a2. I b a ts \<Longrightarrow> iteration b a = Some (t, b2, a2) \<Longrightarrow>
                 I b2 a2 (ts @ [t]) \<and> m b2 a2 < m b a"
  shows "\<exists>ts' b' a'. arbitrage_loop bids asks trades = Some (ts', b', a') \<and>
           I b' a' ts' \<and> iteration b' a' = None"
  using init
proof (induction "m bids asks" arbitrary: bids asks trades rule: less_induct)
  case less
  show ?case
  proof (cases "iteration bids asks")
    case None
    then have "arbitrage_loop bids asks trades = Some (trades, bids, asks)"
      by (subst arbitrage_loop.simps) simp
    with None less.prems show ?thesis by simp
  next
    case (Some x)
    obtain t b2 a2 where x: "x = (t, b2, a2)" by (cases x)
    from step[OF less.prems Some[unfolded x]]
    have I2: "I b2 a2 (trades @ [t])" and dec: "m b2 a2 < m bids asks" by simp_all
    have "arbitrage_loop bids asks trades = arbitrage_loop b2 a2 (trades @ [t])"
      using Some x by (subst arbitrage_loop.simps) simp
    with less.hyps[OF dec I2] show ?thesis by simp
  qed
qed

subsection \<open>Rounding to binary64\<close>

lemma round_half_even_eqI:
  assumes "\<bar>x - of_int m\<bar> < 1 / 2 \<or> (\<bar>x - of_int m\<bar> = 1 / 2 \<and> even m)"
  shows "round_half_even x = m"
proof -
  let ?f = "\<lfloor>x\<rfloor>"
  have fl: "of_int ?f \<le> x" "x < of_int ?f + 1" by linarith+
  from assms show ?thesis
  proof
    assume a: "\<bar>x - of_int m\<bar> < 1 / 2"
    then have "m = ?f \<or> m = ?f + 1" using fl by linarith
    then show ?thesis using a fl unfolding round_half_even_def Let_def by auto
  next
    assume a: "\<bar>x - of_int m\<bar> = 1 / 2 \<and> even m"
    then have "m = ?f \<or> m = ?f + 1" using fl by linarith
    then show ?thesis using a fl unfolding round_half_even_def Let_def by auto
  qed
qed

lemma round_half_even_nearest:
  "\<bar>x - of_int (round_half_even x)\<bar> < 1 / 2 \<or>
   (\<bar>x - of_int (round_half_even x)\<bar> = 1 / 2 \<and> even (round_half_even x))"
proof -
  let ?f = "\<lfloor>x\<rfloor>"
  have fl: "of_int ?f \<le> x" "x < of_int ?f + 1" by linarith+
  consider "x - of_int ?f < 1 / 2" | "1 / 2 < x - of_int ?f"
    | "x - of_int ?f = 1 / 2" "even ?f" | "x - of_int ?f = 1 / 2" "odd ?f"
    by fastforce
  then show ?thesis
  proof cases
    case 1
    then have "round_half_even x = ?f" by (simp add: round_half_even_def Let_def)
    with 1 fl show ?thesis by simp
  next
    case 2
    then have "round_half_even x = ?f + 1" by (simp add: round_half_even_def Let_def)
    with 2 fl show ?thesis by simp
  next
    case 3
    then have "round_half_even x = ?f" by (simp add: round_half_even_def Let_def)
    with 3 show ?thesis by simp
  next
    case 4
    then have "round_half_even x = ?f + 1" by (simp add: round_half_even_def Let_def)
    with 4 show ?thesis by simp
  qed
qed

lemma round_half_even_of_int [simp]: "round_half_even (of_int n) = n"
  by (rule round_half_even_eqI) simp

lemma round_half_even_minus: "round_half_even (- x) = - round_half_even x"
proof (rule round_half_even_eqI)
  have "\<bar>- x - of_int (- round_half_even x)\<bar> = \<bar>x - of_int (round_half_even x)\<bar>"
    by simp
  then show "\<bar>- x - of_int (- round_half_even x)\<bar> < 1 / 2 \<or>
     (\<bar>- x - of_int (- round_half_even x)\<bar> = 1 / 2 \<and> even (- round_half_even x))"
    using round_half_even_nearest[of x] by simp
qed

lemma round_half_even_mono:
  assumes "x \<le> y"
  shows "round_half_even x \<le> round_half_even y"
proof (rule ccontr)
  assume "\<not> round_half_even x \<le> round_half_even y"
  then have gt: "round_half_even y + 1 \<le> round_half_even x" by simp
  let ?a = "round_half_even x" and ?b = "round_half_even y"
  from round_half_even_nearest[of x] have nx: "of_int ?a - 1 / 2 \<le> x" by linarith
  from round_half_even_nearest[of y] have ny: "y \<le> of_int ?b + 1 / 2" by linarith
  from gt have "of_int ?b + 1 \<le> (of_int ?a :: real)" by linarith
  with nx ny assms have eq: "?a = ?b + 1" "x = of_int ?a - 1 / 2" "y = of_int ?b + 1 / 2"
    by linarith+
  from eq(2) round_half_even_nearest[of x] have "even ?a" by auto
  moreover from eq(3) round_half_even_nearest[of y] have "even ?b" by auto
  ultimately show False using eq(1) by simp
qed

lemma round_half_even_ge: "of_int n \<le> x \<Longrightarrow> n \<le> round_half_even x"
  using round_half_even_mono[of "of_int n" x] by simp

lemma round_half_even_le: "x \<le> of_int n \<Longrightarrow> round_half_even x \<le> n"
  using round_half_even_mono[of x "of_int n"] by simp

lemma binade_bounds:
  assumes "x \<noteq> 0"
  shows "2 powr of_int \<lfloor>log 2 \<bar>x\<bar>\<rfloor> \<le> \<bar>x\<bar>" and "\<bar>x\<bar> < 2 powr (of_int \<lfloor>log 2 \<bar>x\<bar>\<rfloor> + 1)"
  using assms floor_log_eq_powr_iff[of "\<bar>x\<bar>" 2 "\<lfloor>log 2 \<bar>x\<bar>\<rfloor>"] by simp_all

lemma binade_eqI:
  assumes "2 powr of_int e \<le> \<bar>x\<bar>" and "\<bar>x\<bar> < 2 powr (of_int e + 1)"
  shows "\<lfloor>log 2 \<bar>x\<bar>\<rfloor> = e"
proof -
  have "0 < \<bar>x\<bar>" using assms(1) powr_gt_zero[of 2 "of_int e"] by linarith
  then show ?thesis using assms floor_log_eq_powr_iff[of "\<bar>x\<bar>" 2 e] by simp
qed

lemma ulp_scale: "(2::real) powr of_int e = 2 ^ 52 * 2 powr (of_int e - 52)"
proof -
  have "(2::real) powr of_int e = 2 powr (52 + (of_int e - 52))" by simp
  also have "\<dots> = 2 powr 52 * 2 powr (of_int e - 52)" by (rule powr_add)
  finally show ?thesis by simp
qed

lemma ulp_scale_Suc: "(2::real) powr (of_int e + 1) = 2 ^ 53 * 2 powr (of_int e - 52)"
proof -
  have "(2::real) powr (of_int e + 1) = 2 powr (53 + (of_int e - 52))" by (simp add: add.commute)
  also have "\<dots> = 2 powr 53 * 2 powr (of_int e - 52)" by (rule powr_add)
  finally show ?thesis by simp
qed

lemma to_double_eqI:
  assumes "2 powr of_int e \<le> \<bar>x\<bar>" and "\<bar>x\<bar> < 2 powr (of_int e + 1)"
    and "round_half_even (x / 2 powr (of_int e - 52)) = m"
  shows "to_double x = of_int m * 2 powr (of_int e - 52)"
proof -
  have "x \<noteq> 0" using assms(1) powr_gt_zero[of 2 "of_int e"] by auto
  moreover have "\<lfloor>log 2 \<bar>x\<bar>\<rfloor> = e" using assms(1,2) by (rule binade_eqI)
  ultimately show ?thesis using assms(3) by (simp add: to_double_def Let_def)
qed

lemma to_double_0 [simp]: "to_double 0 = 0"
  by (simp add: to_double_def)

lemma to_double_minus: "to_double (- x) = - to_double x"
  by (simp add: to_double_def Let_def round_half_even_minus)

lemma to_double_nonneg: "0 \<le> x \<Longrightarrow> 0 \<le> to_double x"
  by (auto simp: to_double_def Let_def intro!: mult_nonneg_nonneg round_half_even_ge)

lemma to_double_nonpos: "x \<le> 0 \<Longrightarrow> to_double x \<le> 0"
  using to_double_nonneg[of "- x"] by (simp add: to_double_minus)

lemma significand_bounds:
  assumes "0 < x"
  defines "u \<equiv> 2 powr (of_int \<lfloor>log 2 \<bar>x\<bar>\<rfloor> - 52)"
  shows "2 ^ 52 \<le> x / u" and "x / u < 2 ^ 53" and "0 < u"
proof -
  show u: "0 < u" by (simp add: u_def)
  from assms(1) have "x \<noteq> 0" by simp
  from binade_bounds[OF this] assms(1)
  have "2 ^ 52 * u \<le> x" "x < 2 ^ 53 * u"
    unfolding u_def using ulp_scale ulp_scale_Suc by (metis abs_of_pos)+
  then show "2 ^ 52 \<le> x / u" "x / u < 2 ^ 53"
    using u by (simp_all add: pos_le_divide_eq pos_divide_less_eq)
qed

lemma to_double_pos_bounds:
  assumes "0 < x"
  shows "2 powr of_int \<lfloor>log 2 \<bar>x\<bar>\<rfloor> \<le> to_double x"
    and "to_double x \<le> 2 powr (of_int \<lfloor>log 2 \<bar>x\<bar>\<rfloor> + 1)"
proof -
  let ?e = "\<lfloor>log 2 \<bar>x\<bar>\<rfloor>"
  let ?u = "(2::real) powr (of_int ?e - 52)"
  note sb = significand_bounds[OF assms]
  have td: "to_double x = of_int (round_half_even (x / ?u)) * ?u"
    using assms by (simp add: to_double_def Let_def)
  have "(2 ^ 52 :: real) = of_int (2 ^ 52)" by simp
  with sb(1) have "2 ^ 52 \<le> round_half_even (x / ?u)"
    by (intro round_half_even_ge) simp
  then have "(2 ^ 52 :: real) \<le> of_int (round_half_even (x / ?u))"
    by (metis of_int_le_iff of_int_numeral of_int_power)
  then have "2 ^ 52 * ?u \<le> of_int (round_half_even (x / ?u)) * ?u"
    using sb(3) by (intro mult_right_mono) simp_all
  then show "2 powr of_int ?e \<le> to_double x" unfolding td ulp_scale[of ?e] .
  have "round_half_even (x / ?u) \<le> 2 ^ 53"
    using sb(2) by (intro round_half_even_le) simp
  then have "of_int (round_half_even (x / ?u)) \<le> (2 ^ 53 :: real)"
    by (metis of_int_le_iff of_int_numeral of_int_power)
  then have "of_int (round_half_even (x / ?u)) * ?u \<le> 2 ^ 53 * ?u"
    using sb(3) by (intro mult_right_mono) simp_all
  then show "to_double x \<le> 2 powr (of_int ?e + 1)" unfolding td ulp_scale_Suc[of ?e] .
qed

lemma to_double_mono_pos:
  assumes "0 < x" and "x \<le> y"
  shows "to_double x \<le> to_double y"
proof -
  let ?ex = "\<lfloor>log 2 \<bar>x\<bar>\<rfloor>" and ?ey = "\<lfloor>log 2 \<bar>y\<bar>\<rfloor>"
  from assms have y: "0 < y" by simp
  have "log 2 \<bar>x\<bar> \<le> log 2 \<bar>y\<bar>" using assms by simp
  then have le: "?ex \<le> ?ey" by (rule floor_mono)
  show ?thesis
  proof (cases "?ex = ?ey")
    case True
    let ?u = "(2::real) powr (of_int ?ex - 52)"
    have "x / ?u \<le> y / ?u" using assms(2) by (simp add: divide_right_mono)
    then have "round_half_even (x / ?u) \<le> round_half_even (y / ?u)" by (rule round_half_even_mono)
    then have "of_int (round_half_even (x / ?u)) * ?u \<le> of_int (round_half_even (y / ?u)) * ?u"
      by (simp add: mult_right_mono)
    then show ?thesis using assms(1) y True by (simp add: to_double_def Let_def)
  next
    case False
    with le have "?ex + 1 \<le> ?ey" by simp
    then have "(2::real) powr (of_int ?ex + 1) \<le> 2 powr of_int ?ey"
      by (metis of_int_1 of_int_add of_int_le_iff one_less_numeral_iff powr_le_cancel_iff semiring_norm(76))
    with to_double_pos_bounds(2)[OF assms(1)] to_double_pos_bounds(1)[OF y]
    show ?thesis by linarith
  qed
qed

lemma to_double_mono:
  assumes "x \<le> y"
  shows "to_double x \<le> to_double y"
proof -
  consider "0 < x" | "x \<le> 0" "0 \<le> y" | "y < 0" by linarith
  then show ?thesis
  proof cases
    case 1
    then show ?thesis using assms by (rule to_double_mono_pos)
  next
    case 2
    then show ?thesis using to_double_nonpos[of x] to_double_nonneg[of y] by linarith
  next
    case 3
    then have "0 < - y" "- y \<le> - x" using assms by simp_all
    then have "to_double (- y) \<le> to_double (- x)" by (rule to_double_mono_pos)
    then show ?thesis by (simp add: to_double_minus)
  qed
qed

lemma two_powr_nonneg: "0 \<le> k \<Longrightarrow> (2::real) powr of_int k = 2 ^ nat k"
  using powr_realpow[of 2 "nat k"] by simp

lemma two_powr_nonpos: "k \<le> 0 \<Longrightarrow> (2::real) powr of_int k = 1 / 2 ^ nat (- k)"
proof -
  assume "k \<le> 0"
  then have "(2::real) powr of_int (- k) = 2 ^ nat (- k)" by (intro two_powr_nonneg) simp
  moreover have "(2::real) powr of_int k = 1 / 2 powr of_int (- k)"
    by (simp add: powr_minus_divide)
  ultimately show ?thesis by simp
qed

lemma to_double_fix:
  assumes "x / 2 powr (of_int \<lfloor>log 2 \<bar>x\<bar>\<rfloor> - 52) = of_int k"
  shows "to_double x = x"
proof (cases "x = 0")
  case True
  then show ?thesis by simp
next
  case False
  let ?u = "(2::real) powr (of_int \<lfloor>log 2 \<bar>x\<bar>\<rfloor> - 52)"
  have "0 < ?u" by simp
  with assms have "x = of_int k * ?u" by (simp add: field_simps)
  moreover have "to_double x = of_int (round_half_even (x / ?u)) * ?u"
    using False by (simp add: to_double_def Let_def)
  ultimately show ?thesis using assms by simp
qed

lemma to_double_idem_pos:
  assumes "0 < x"
  shows "to_double (to_double x) = to_double x"
proof -
  let ?e = "\<lfloor>log 2 \<bar>x\<bar>\<rfloor>"
  let ?u = "(2::real) powr (of_int ?e - 52)"
  let ?m = "round_half_even (x / ?u)"
  let ?y = "to_double x"
  note sb = significand_bounds[OF assms]
  have td: "?y = of_int ?m * ?u" using assms by (simp add: to_double_def Let_def)
  have lo: "2 powr of_int ?e \<le> ?y" by (rule to_double_pos_bounds(1)[OF assms])
  have hi: "?y \<le> 2 powr (of_int ?e + 1)" by (rule to_double_pos_bounds(2)[OF assms])
  have ypos: "0 < ?y" using lo powr_gt_zero[of 2 "of_int ?e"] by linarith
  show ?thesis
  proof (cases "?y < 2 powr (of_int ?e + 1)")
    case True
    have "\<lfloor>log 2 \<bar>?y\<bar>\<rfloor> = ?e"
      using lo True ypos by (intro binade_eqI) simp_all
    moreover have "?y / ?u = of_int ?m" using sb(3) by (simp add: td)
    ultimately show ?thesis by (intro to_double_fix[of _ ?m]) simp
  next
    case False
    with hi have y: "?y = 2 powr (of_int ?e + 1)" by simp
    have "(2::real) powr (of_int ?e + 1) < 2 powr (of_int ?e + 1 + 1)" by simp
    then have "\<lfloor>log 2 \<bar>?y\<bar>\<rfloor> = ?e + 1"
      using ypos by (intro binade_eqI) (simp_all add: y)
    moreover have "?y / 2 powr (of_int (?e + 1) - 52) = of_int (2 ^ 52)"
      unfolding y using ulp_scale[of "?e + 1"] by simp
    ultimately show ?thesis by (intro to_double_fix[of _ "2 ^ 52"]) simp
  qed
qed

lemma to_double_idem [simp]: "to_double (to_double x) = to_double x"
proof -
  consider "0 < x" | "x = 0" | "0 < - x" by linarith
  then show ?thesis
  proof cases
    case 1
    then show ?thesis by (rule to_double_idem_pos)
  next
    case 2
    then show ?thesis by simp
  next
    case 3
    from to_double_idem_pos[OF this] show ?thesis by (simp add: to_double_minus)
  qed
qed

lemma binade_of_int_nonneg:
  assumes "n \<noteq> 0"
  shows "0 \<le> \<lfloor>log 2 \<bar>real_of_int n\<bar>\<rfloor>"
proof -
  from assms have "1 \<le> \<bar>n\<bar>" by simp
  then have "real_of_int 1 \<le> real_of_int \<bar>n\<bar>" by (simp only: of_int_le_iff)
  then have "1 \<le> \<bar>real_of_int n\<bar>" by simp
  then have "0 \<le> log 2 \<bar>real_of_int n\<bar>" by simp
  then show ?thesis by simp
qed

lemma to_double_int:
  "\<exists>k. to_double (of_int n) = of_int k"
proof (cases "n = 0")
  case True
  then show ?thesis by (intro exI[of _ 0]) simp
next
  case False
  let ?x = "real_of_int n"
  let ?e = "\<lfloor>log 2 \<bar>?x\<bar>\<rfloor>"
  let ?u = "(2::real) powr (of_int ?e - 52)"
  have u: "?u = 2 powr of_int (?e - 52)" by simp
  show ?thesis
  proof (cases "52 \<le> ?e")
    case True
    then have "0 \<le> ?e - 52" by simp
    then have "(2::real) powr of_int (?e - 52) = 2 ^ nat (?e - 52)" by (rule two_powr_nonneg)
    then have "?u = of_int (2 ^ nat (?e - 52))"
      unfolding u by simp
    moreover have "to_double ?x = of_int (round_half_even (?x / ?u)) * ?u"
      using False by (simp add: to_double_def Let_def)
    ultimately have "to_double ?x = of_int (round_half_even (?x / ?u) * 2 ^ nat (?e - 52))"
      by simp
    then show ?thesis by blast
  next
    case False
    then have "?u = 1 / 2 ^ nat (52 - ?e)"
      unfolding u using two_powr_nonpos[of "?e - 52"] by simp
    then have "?x / ?u = of_int (n * 2 ^ nat (52 - ?e))" by simp
    then have "to_double ?x = ?x" by (rule to_double_fix)
    then show ?thesis by blast
  qed
qed

lemma to_double_exact:
  assumes "\<bar>n\<bar> \<le> 2 ^ 53"
  shows "to_double (of_int n) = of_int n"
proof (cases "n = 0")
  case True
  then show ?thesis by simp
next
  case False
  let ?x = "real_of_int n"
  let ?e = "\<lfloor>log 2 \<bar>?x\<bar>\<rfloor>"
  let ?u = "(2::real) powr (of_int ?e - 52)"
  have u: "?u = 2 powr of_int (?e - 52)" by simp
  have x0: "?x \<noteq> 0" using False by simp
  from assms have "real_of_int \<bar>n\<bar> \<le> real_of_int (2 ^ 53)" by (simp only: of_int_le_iff)
  then have ax: "\<bar>?x\<bar> \<le> 2 ^ 53" by simp
  show ?thesis
  proof (cases "?e \<le> 52")
    case True
    then have "?u = 1 / 2 ^ nat (52 - ?e)"
      unfolding u using two_powr_nonpos[of "?e - 52"] by simp
    then have "?x / ?u = of_int (n * 2 ^ nat (52 - ?e))" by simp
    then show ?thesis by (rule to_double_fix)
  next
    case False
    then have e53: "53 \<le> ?e" by simp
    have "(2::real) powr of_int 53 \<le> 2 powr of_int ?e"
      using e53 by (metis of_int_le_iff one_less_numeral_iff powr_le_cancel_iff semiring_norm(76))
    also have "\<dots> \<le> \<bar>?x\<bar>" by (rule binade_bounds(1)[OF x0])
    finally have "2 ^ 53 \<le> \<bar>?x\<bar>" by simp
    with ax have eq: "\<bar>?x\<bar> = 2 ^ 53" by simp
    then have "\<bar>?x\<bar> = 2 powr of_int 53" by simp
    then have e: "?e = 53" by (intro binade_eqI) simp_all
    have "?x / ?u = of_int (n div 2)"
    proof -
      from eq have "real_of_int \<bar>n\<bar> = real_of_int (2 ^ 53)" by simp
      then have "\<bar>n\<bar> = 2 ^ 53" by (simp only: of_int_eq_iff)
      then have "n = 2 ^ 53 \<or> n = - (2 ^ 53)" by linarith
      then have "even n" by auto
      then have "real_of_int (n div 2) = ?x / 2" by (simp add: real_of_int_div)
      then show ?thesis by (simp add: e)
    qed
    then show ?thesis by (rule to_double_fix)
  qed
qed

subsection \<open>The conversions of line 111\<close>

lemma double_of_long_exact: "\<bar>n\<bar> \<le> 2 ^ 53 \<Longrightarrow> double_of_long n = of_int n"
  by (simp add: double_of_long_def to_double_exact)

lemma double_of_long_nonneg: "0 \<le> n \<Longrightarrow> 0 \<le> double_of_long n"
  by (simp add: double_of_long_def to_double_nonneg)

lemma double_of_long_nonpos: "n \<le> 0 \<Longrightarrow> double_of_long n \<le> 0"
  by (simp add: double_of_long_def to_double_nonpos)

lemma double_of_long_int: "\<exists>k. double_of_long n = of_int k"
  unfolding double_of_long_def by (rule to_double_int)

lemma long_of_double_of_int:
  "long_of_double (of_int k) = (if - (2 ^ 63) \<le> k \<and> k < 2 ^ 63 then k else - (2 ^ 63))"
  by (simp add: long_of_double_def Let_def)

lemma long_of_double_in_range:
  "- (2 ^ 63) \<le> k \<Longrightarrow> k < 2 ^ 63 \<Longrightarrow> long_of_double (of_int k) = k"
  by (simp add: long_of_double_of_int)

lemma long_of_double_out_of_range:
  "\<not> (- (2 ^ 63) \<le> k \<and> k < 2 ^ 63) \<Longrightarrow> long_of_double (of_int k) = - (2 ^ 63)"
  by (simp only: long_of_double_of_int if_False)

lemma long_of_double_nonpos: "x \<le> 0 \<Longrightarrow> long_of_double x \<le> 0"
proof -
  assume x: "x \<le> 0"
  have "(if 0 \<le> x then \<lfloor>x\<rfloor> else \<lceil>x\<rceil>) \<le> 0"
    using x by (auto simp: ceiling_le_iff floor_le_iff)
  then show ?thesis by (simp add: long_of_double_def Let_def)
qed

lemma long_of_double_le:
  assumes "x \<le> of_int w" and "- (2 ^ 63) \<le> w"
  shows "long_of_double x \<le> w"
proof -
  have "(if 0 \<le> x then \<lfloor>x\<rfloor> else \<lceil>x\<rceil>) \<le> w"
    using assms(1) by (auto simp: ceiling_le_iff floor_le_iff intro: order_trans[OF of_int_floor_le])
  with assms(2) show ?thesis by (simp add: long_of_double_def Let_def)
qed

lemma long_of_double_range: "- (2 ^ 63) \<le> long_of_double x" "long_of_double x < 2 ^ 63"
  by (simp_all add: long_of_double_def Let_def)

text \<open>An exhausted entry stays exhausted.\<close>

lemma subtract_quantity_nonpos:
  assumes "v \<le> 0" and "0 \<le> tq"
  shows "subtract_quantity v tq \<le> 0"
proof -
  have "double_of_long v - tq \<le> 0" using double_of_long_nonpos[OF assms(1)] assms(2) by simp
  then have "to_double (double_of_long v - tq) \<le> 0" by (rule to_double_nonpos)
  then show ?thesis unfolding subtract_quantity_def by (rule long_of_double_nonpos)
qed

text \<open>Subtracting a volume from itself gives 0, whatever the rounding.\<close>

lemma subtract_quantity_self: "subtract_quantity v (double_of_long v) = 0"
  by (simp add: subtract_quantity_def long_of_double_def)

text \<open>Within the range of exact conversion the subtraction is that of the integers.\<close>

lemma subtract_quantity_exact:
  assumes "\<bar>v\<bar> \<le> 2 ^ 53" and "\<bar>q\<bar> \<le> 2 ^ 53" and "\<bar>v - q\<bar> \<le> 2 ^ 53"
  shows "subtract_quantity v (double_of_long q) = v - q"
proof -
  have "double_of_long v - double_of_long q = of_int (v - q)"
    using assms(1,2) by (simp add: double_of_long_exact)
  then have "to_double (double_of_long v - double_of_long q) = of_int (v - q)"
    using to_double_exact[OF assms(3)] by (simp only:)
  moreover have "- (2 ^ 63) \<le> v - q" "v - q < 2 ^ 63" using assms(3) by simp_all
  then have "long_of_double (of_int (v - q)) = v - q" by (rule long_of_double_in_range)
  ultimately show ?thesis by (simp only: subtract_quantity_def)
qed

text \<open>
  A volume that is a value of \<open>double\<close> does not rise, and the result is a value of
  \<open>double\<close> again.
\<close>

lemma subtract_quantity_le:
  assumes "double_of_long v = of_int v" and "- (2 ^ 63) \<le> v" and "0 \<le> tq"
  shows "subtract_quantity v tq \<le> v"
proof -
  have "to_double (double_of_long v - tq) \<le> to_double (of_int v)"
    using assms(1,3) by (intro to_double_mono) simp
  also have "\<dots> = of_int v" using assms(1) by (simp add: double_of_long_def)
  finally show ?thesis unfolding subtract_quantity_def using assms(2) by (rule long_of_double_le)
qed

lemma double_of_long_min: "double_of_long (- (2 ^ 63)) = of_int (- (2 ^ 63))"
proof -
  have "to_double (- (2 ^ 63)) = of_int (- (2 ^ 52)) * 2 powr (of_int 63 - 52)"
    by (rule to_double_eqI) (simp_all add: round_half_even_eqI)
  then show ?thesis by (simp add: double_of_long_def)
qed

lemma subtract_quantity_double:
  assumes "tq = of_int k"
  shows "double_of_long (subtract_quantity v tq) = of_int (subtract_quantity v tq)"
proof -
  obtain k1 where k1: "double_of_long v = of_int k1" using double_of_long_int by blast
  then have arg: "double_of_long v - tq = of_int (k1 - k)" using assms by simp
  obtain z where z: "to_double (double_of_long v - tq) = of_int z"
    unfolding arg using to_double_int by blast
  have kept: "to_double (of_int z) = of_int z" using to_double_idem[of "double_of_long v - tq"] z by simp
  show ?thesis
  proof (cases "- (2 ^ 63) \<le> z \<and> z < 2 ^ 63")
    case True
    then have "long_of_double (of_int z) = z" by (intro long_of_double_in_range) simp_all
    then have "subtract_quantity v tq = z" by (simp only: subtract_quantity_def z)
    then show ?thesis using kept by (simp add: double_of_long_def)
  next
    case False
    then have "long_of_double (of_int z) = - (2 ^ 63)" by (rule long_of_double_out_of_range)
    then have "subtract_quantity v tq = - (2 ^ 63)" by (simp only: subtract_quantity_def z)
    then show ?thesis using double_of_long_min by simp
  qed
qed

lemma subtract_quantity_range: "- (2 ^ 63) \<le> subtract_quantity v tq"
  unfolding subtract_quantity_def by (rule long_of_double_range)

subsection \<open>The volume update\<close>

lemma entries_kept_refl: "entries_kept b b"
  by (simp add: entries_kept_def list_all2_refl)

lemma entries_kept_trans: "entries_kept b b' \<Longrightarrow> entries_kept b' b'' \<Longrightarrow> entries_kept b b''"
  unfolding entries_kept_def by (erule (1) list_all2_trans[rotated]) auto

lemma entries_kept_update_volume:
  "0 \<le> tq \<Longrightarrow> entries_kept b (update_volume b ex f p tq)"
proof (induction b ex f p tq rule: update_volume.induct)
  case (1 ex f p tq)
  then show ?case by (simp add: entries_kept_def)
next
  case (2 k entry book ex f p tq)
  have "0 < subtract_quantity (Entry.volume entry) tq \<longrightarrow> 0 < Entry.volume entry"
    using subtract_quantity_nonpos[of "Entry.volume entry" tq] 2(2) by linarith
  with 2 show ?case by (auto simp: entries_kept_def list_all2_refl)
qed

lemma volumes_lowered_refl: "volumes_lowered b b"
  by (simp add: volumes_lowered_def list_all2_refl)

lemma volumes_lowered_trans: "volumes_lowered b b' \<Longrightarrow> volumes_lowered b' b'' \<Longrightarrow> volumes_lowered b b''"
  unfolding volumes_lowered_def by (erule (1) list_all2_trans[rotated]) auto

lemma volumes_lowered_update_volume:
  "double_longs b \<Longrightarrow> 0 \<le> tq \<Longrightarrow> volumes_lowered b (update_volume b ex f p tq)"
proof (induction b ex f p tq rule: update_volume.induct)
  case (1 ex f p tq)
  then show ?case by (simp add: volumes_lowered_def)
next
  case (2 k entry book ex f p tq)
  from 2(2) have e: "- (2 ^ 63) \<le> Entry.volume entry"
    "double_of_long (Entry.volume entry) = of_int (Entry.volume entry)"
    and rest: "double_longs book"
    by (simp_all add: double_longs_def)
  have "subtract_quantity (Entry.volume entry) tq \<le> Entry.volume entry"
    using e(2,1) 2(3) by (rule subtract_quantity_le)
  with 2(1)[OF _ rest 2(3)] show ?case by (auto simp: volumes_lowered_def list_all2_refl)
qed

lemma double_longs_update_volume:
  "double_longs b \<Longrightarrow> tq = of_int k \<Longrightarrow> double_longs (update_volume b ex f p tq)"
proof (induction b ex f p tq rule: update_volume.induct)
  case (1 ex f p tq)
  then show ?case by simp
next
  case (2 k' entry book ex f p tq)
  from 2(2) have rest: "double_longs book" by (simp add: double_longs_def)
  have "- (2 ^ 63) \<le> subtract_quantity (Entry.volume entry) tq"
    by (rule subtract_quantity_range)
  moreover have "double_of_long (subtract_quantity (Entry.volume entry) tq) =
       of_int (subtract_quantity (Entry.volume entry) tq)"
    using 2(3) by (rule subtract_quantity_double)
  ultimately show ?case using 2(1)[OF _ rest 2(3)] 2(2) by (auto simp: double_longs_def)
qed

lemma exact_range_double_longs: "exact_range b \<Longrightarrow> double_longs b"
  unfolding exact_range_def double_longs_def
  by (induction b) (auto simp: double_of_long_exact)

lemma in_candidates_iff:
  "c \<in> set (candidates asks bids) \<longleftrightarrow>
     (\<exists>ka kb. (ka, fst c) \<in> set asks \<and> (kb, snd c) \<in> set bids \<and>
        0 < Entry.volume (fst c) \<and> 0 < Entry.volume (snd c) \<and>
        exchange (fst c) \<noteq> exchange (snd c))"
  by (cases c) (force simp: candidates_def bid_candidates_def)

lemma entries_kept_mem:
  "entries_kept b b' \<Longrightarrow> (k, e') \<in> set b' \<Longrightarrow>
     \<exists>e. (k, e) \<in> set b \<and> identity e' = identity e \<and>
         (0 < Entry.volume e' \<longrightarrow> 0 < Entry.volume e)"
  unfolding entries_kept_def by (induction b b' rule: list_all2_induct) (auto simp: identity_def)

lemma pair_profit_identity:
  "identity (fst c') = identity (fst c) \<Longrightarrow> identity (snd c') = identity (snd c) \<Longrightarrow>
     pair_profit c' = pair_profit c"
  by (simp add: pair_profit_def identity_def effective_cost_def effective_proceed_def)

lemma entries_kept_candidates:
  assumes "entries_kept asks asks'" and "entries_kept bids bids'" and "c' \<in> set (candidates asks' bids')"
  shows "\<exists>c\<in>set (candidates asks bids). pair_profit c = pair_profit c'"
proof -
  from assms(3) obtain ka kb where
    a': "(ka, fst c') \<in> set asks'" and b': "(kb, snd c') \<in> set bids'"
    and pos: "0 < Entry.volume (fst c')" "0 < Entry.volume (snd c')"
    and ne: "exchange (fst c') \<noteq> exchange (snd c')"
    by (auto simp: in_candidates_iff)
  from entries_kept_mem[OF assms(1) a'] pos(1) obtain a where
    a: "(ka, a) \<in> set asks" "identity (fst c') = identity a" "0 < Entry.volume a"
    by blast
  from entries_kept_mem[OF assms(2) b'] pos(2) obtain b where
    b: "(kb, b) \<in> set bids" "identity (snd c') = identity b" "0 < Entry.volume b"
    by blast
  have "exchange a \<noteq> exchange b" using ne a(2) b(2) by (simp add: identity_def)
  with a b have "(a, b) \<in> set (candidates asks bids)"
    by (auto simp: in_candidates_iff)
  moreover have "pair_profit (a, b) = pair_profit c'"
    using a(2) b(2) by (intro pair_profit_identity) simp_all
  ultimately show ?thesis by blast
qed

subsection \<open>One iteration\<close>

lemma iteration_Some_iff:
  "iteration bids asks = Some (t, bids', asks') \<longleftrightarrow>
     best_trade bids asks = Some t \<and>
     asks' = update_volume asks (buy_exchange t) (buy_fee t) (buy_price t) (double_of_long (Trade.volume t)) \<and>
     bids' = update_volume bids (sell_exchange t) (sell_fee t) (sell_price t) (double_of_long (Trade.volume t))"
  by (auto simp: iteration_def Let_def split: option.splits)

lemma iteration_None_iff: "iteration bids asks = None \<longleftrightarrow> best_trade bids asks = None"
  by (simp add: iteration_def Let_def split: option.splits)

lemma best_trade_candidate:
  assumes "best_trade bids asks = Some t"
  obtains c where "c \<in> set (candidates asks bids)" "t = trade_of c" "0 < pair_profit c"
    "\<forall>x\<in>set (candidates asks bids). pair_profit x \<le> pair_profit c"
proof -
  from assms obtain i where fb: "first_best (candidates asks bids) i"
    and t: "t = trade_of (candidates asks bids ! i)"
    by (auto simp: best_trade_Some_iff)
  show thesis
  proof (rule that[of "candidates asks bids ! i"])
    show "candidates asks bids ! i \<in> set (candidates asks bids)"
      using fb by (simp add: first_best_def)
    show "t = trade_of (candidates asks bids ! i)" by (rule t)
    show "0 < pair_profit (candidates asks bids ! i)" using fb by (simp add: first_best_def)
    show "\<forall>x\<in>set (candidates asks bids). pair_profit x \<le> pair_profit (candidates asks bids ! i)"
      using fb by (blast intro: first_best_upper)
  qed
qed

lemma trade_of_simps [simp]:
  "buy_exchange (trade_of c) = exchange (fst c)"
  "sell_exchange (trade_of c) = exchange (snd c)"
  "buy_fee (trade_of c) = fee (fst c)"
  "sell_fee (trade_of c) = fee (snd c)"
  "buy_price (trade_of c) = price (fst c)"
  "sell_price (trade_of c) = price (snd c)"
  "Trade.volume (trade_of c) = min (Entry.volume (fst c)) (Entry.volume (snd c))"
  "profit_per_unit (trade_of c) = pair_profit c"
  "net_profit (trade_of c) = pair_profit c * real_of_int (min (Entry.volume (fst c)) (Entry.volume (snd c)))"
  by (simp_all add: trade_of_def)

lemma iteration_quantity:
  assumes "iteration bids asks = Some (t, bids', asks')"
  shows "1 \<le> Trade.volume t"
proof -
  from assms have bt: "best_trade bids asks = Some t" by (simp add: iteration_Some_iff)
  then obtain c where c: "c \<in> set (candidates asks bids)" "t = trade_of c"
    by (rule best_trade_candidate)
  then show ?thesis by (auto simp: in_candidates_iff)
qed

lemma iteration_entries_kept:
  assumes "iteration bids asks = Some (t, bids', asks')"
  shows "entries_kept bids bids' \<and> entries_kept asks asks'"
proof -
  from iteration_quantity[OF assms] have "0 \<le> double_of_long (Trade.volume t)"
    by (intro double_of_long_nonneg) simp
  with assms show ?thesis by (simp add: iteration_Some_iff entries_kept_update_volume)
qed

lemma iteration_volumes_lowered:
  assumes "iteration bids asks = Some (t, bids', asks')"
    and "double_longs bids" and "double_longs asks"
  shows "volumes_lowered bids bids' \<and> volumes_lowered asks asks' \<and>
         double_longs bids' \<and> double_longs asks'"
proof -
  from iteration_quantity[OF assms(1)] have "0 \<le> double_of_long (Trade.volume t)"
    by (intro double_of_long_nonneg) simp
  moreover obtain k where "double_of_long (Trade.volume t) = of_int k"
    using double_of_long_int by blast
  ultimately show ?thesis
    using assms by (simp add: iteration_Some_iff volumes_lowered_update_volume
        double_longs_update_volume)
qed

subsection \<open>Volumes above \<open>2^53\<close>\<close>

lemma to_double_at:
  assumes "2 ^ nat e \<le> \<bar>x\<bar>" and "\<bar>x\<bar> < 2 * 2 ^ nat e" and "52 \<le> e"
    and "\<bar>x / 2 ^ nat (e - 52) - of_int m\<bar> < 1 / 2 \<or>
         (\<bar>x / 2 ^ nat (e - 52) - of_int m\<bar> = 1 / 2 \<and> even m)"
  shows "to_double x = of_int m * 2 ^ nat (e - 52)"
proof -
  have e: "(2::real) powr of_int e = 2 ^ nat e" using assms(3) by (intro two_powr_nonneg) simp
  have e1: "(2::real) powr (of_int e + 1) = 2 * 2 ^ nat e"
    using e by (simp add: powr_add)
  have u: "(2::real) powr (of_int e - 52) = 2 ^ nat (e - 52)"
    using two_powr_nonneg[of "e - 52"] assms(3) by simp
  have "to_double x = of_int m * 2 powr (of_int e - 52)"
  proof (rule to_double_eqI)
    show "2 powr of_int e \<le> \<bar>x\<bar>" using assms(1) by (simp only: e)
    show "\<bar>x\<bar> < 2 powr (of_int e + 1)" using assms(2) by (simp only: e1)
    show "round_half_even (x / 2 powr (of_int e - 52)) = m"
      unfolding u using assms(4) by (rule round_half_even_eqI)
  qed
  then show ?thesis by (simp only: u)
qed

lemma wide_quantity: "double_of_long 9007199254740993 = 9007199254740992"
  unfolding double_of_long_def
  using to_double_at[of 53 9007199254740993 4503599627370496] by simp

lemma wide_bid: "double_of_long 9007199254740995 = 9007199254740996"
  unfolding double_of_long_def
  using to_double_at[of 53 9007199254740995 4503599627370498] by simp

lemma wide_subtract:
  "subtract_quantity 9007199254740995 (double_of_long 9007199254740993) = 4"
proof -
  have "to_double 4 = 4" using to_double_exact[of 4] by simp
  then show ?thesis
    by (simp add: subtract_quantity_def wide_quantity wide_bid long_of_double_def)
qed

lemma tall_ask: "double_of_long 1152921504606847105 = 1152921504606847232"
  unfolding double_of_long_def
  using to_double_at[of 60 1152921504606847105 4503599627370497] by simp

lemma tall_subtract:
  "subtract_quantity 1152921504606847105 (double_of_long 3) = 1152921504606847232"
proof -
  have "double_of_long 3 = 3" using double_of_long_exact[of 3] by simp
  moreover have "to_double 1152921504606847229 = 1152921504606847232"
    using to_double_at[of 60 1152921504606847229 4503599627370497] by simp
  ultimately show ?thesis
    by (simp add: subtract_quantity_def tall_ask long_of_double_def)
qed

subsection \<open>Books with unique identities\<close>

lemma update_volume_unique:
  "distinct (map (\<lambda>ke. identity (snd ke)) b) \<Longrightarrow> i < length b \<Longrightarrow> identity (snd (b ! i)) = (ex, f, p) \<Longrightarrow>
     update_volume b ex f p tq = set_volume b i (subtract_quantity (Entry.volume (snd (b ! i))) tq)"
  unfolding set_volume_def
proof (induction b arbitrary: i)
  case Nil
  then show ?case by simp
next
  case (Cons ke b)
  obtain k e where ke: "ke = (k, e)" by (cases ke)
  show ?case
  proof (cases i)
    case 0
    with Cons.prems ke show ?thesis by (simp add: identity_def)
  next
    case (Suc n)
    with Cons.prems have n: "n < length b" and idn: "identity (snd (b ! n)) = (ex, f, p)"
      by simp_all
    from n have "identity (snd (b ! n)) \<in> set (map (\<lambda>ke. identity (snd ke)) b)"
      by (metis length_map nth_map nth_mem)
    moreover from Cons.prems(1) ke have "identity e \<notin> set (map (\<lambda>ke. identity (snd ke)) b)"
      by simp
    ultimately have "identity e \<noteq> (ex, f, p)" using idn by metis
    then have "\<not> (exchange e = ex \<and> fee e = f \<and> price e = p)" by (auto simp: identity_def)
    moreover from Cons.prems(1) have "distinct (map (\<lambda>ke. identity (snd ke)) b)" by simp
    ultimately show ?thesis using Cons.IH[OF _ n idn] Suc ke by auto
  qed
qed

lemma candidates_nth:
  assumes "c \<in> set (candidates asks bids)"
  obtains i j where "i < length asks" "j < length bids"
    "fst c = snd (asks ! i)" "snd c = snd (bids ! j)"
    "0 < Entry.volume (snd (asks ! i))" "0 < Entry.volume (snd (bids ! j))"
    "exchange (snd (asks ! i)) \<noteq> exchange (snd (bids ! j))"
proof -
  from assms obtain ka kb where a: "(ka, fst c) \<in> set asks" and b: "(kb, snd c) \<in> set bids"
    and rest: "0 < Entry.volume (fst c)" "0 < Entry.volume (snd c)" "exchange (fst c) \<noteq> exchange (snd c)"
    by (auto simp: in_candidates_iff)
  from a obtain i where "i < length asks" "asks ! i = (ka, fst c)" by (auto simp: in_set_conv_nth)
  moreover from b obtain j where "j < length bids" "bids ! j = (kb, snd c)" by (auto simp: in_set_conv_nth)
  ultimately show thesis using rest by (intro that[of i j]) simp_all
qed

lemma iteration_unique:
  assumes ub: "unique_identity bids" and ua: "unique_identity asks"
    and it: "iteration bids asks = Some (t, bids', asks')"
  obtains i j where "i < length asks" "j < length bids"
    "0 < Entry.volume (snd (asks ! i))" "0 < Entry.volume (snd (bids ! j))"
    "exchange (snd (asks ! i)) \<noteq> exchange (snd (bids ! j))"
    "t = trade_of (snd (asks ! i), snd (bids ! j))"
    "0 < pair_profit (snd (asks ! i), snd (bids ! j))"
    "asks' = set_volume asks i
       (subtract_quantity (Entry.volume (snd (asks ! i))) (double_of_long (Trade.volume t)))"
    "bids' = set_volume bids j
       (subtract_quantity (Entry.volume (snd (bids ! j))) (double_of_long (Trade.volume t)))"
proof -
  from it have bt: "best_trade bids asks = Some t"
    and a': "asks' = update_volume asks (buy_exchange t) (buy_fee t) (buy_price t) (double_of_long (Trade.volume t))"
    and b': "bids' = update_volume bids (sell_exchange t) (sell_fee t) (sell_price t) (double_of_long (Trade.volume t))"
    by (simp_all add: iteration_Some_iff)
  from bt obtain c where c: "c \<in> set (candidates asks bids)" "t = trade_of c" "0 < pair_profit c"
    by (rule best_trade_candidate)
  from c(1) obtain i j where ij: "i < length asks" "j < length bids"
    "fst c = snd (asks ! i)" "snd c = snd (bids ! j)"
    "0 < Entry.volume (snd (asks ! i))" "0 < Entry.volume (snd (bids ! j))"
    "exchange (snd (asks ! i)) \<noteq> exchange (snd (bids ! j))"
    by (rule candidates_nth)
  have ceq: "c = (snd (asks ! i), snd (bids ! j))" using ij(3,4) by (cases c) simp
  have "identity (snd (asks ! i)) = (buy_exchange t, buy_fee t, buy_price t)"
    using c(2) ij(3) by (simp add: identity_def)
  from update_volume_unique[OF ua[unfolded unique_identity_def] ij(1) this]
  have A: "asks' = set_volume asks i
       (subtract_quantity (Entry.volume (snd (asks ! i))) (double_of_long (Trade.volume t)))"
    by (simp add: a')
  have "identity (snd (bids ! j)) = (sell_exchange t, sell_fee t, sell_price t)"
    using c(2) ij(4) by (simp add: identity_def)
  from update_volume_unique[OF ub[unfolded unique_identity_def] ij(2) this]
  have B: "bids' = set_volume bids j
       (subtract_quantity (Entry.volume (snd (bids ! j))) (double_of_long (Trade.volume t)))"
    by (simp add: b')
  show thesis
    using ij(1,2,5,6,7) c(2,3) A B unfolding ceq by (rule that)
qed

lemma entries_kept_identities: "entries_kept b b' \<Longrightarrow> map (\<lambda>ke. identity (snd ke)) b' = map (\<lambda>ke. identity (snd ke)) b"
  unfolding entries_kept_def by (induction b b' rule: list_all2_induct) (auto simp: identity_def)

lemma entries_kept_unique: "entries_kept b b' \<Longrightarrow> unique_identity b \<Longrightarrow> unique_identity b'"
  by (simp add: unique_identity_def entries_kept_identities)

lemma set_volume_length [simp]: "length (set_volume b i v) = length b"
  by (simp add: set_volume_def)

lemma set_volume_nth:
  "k < length b \<Longrightarrow>
     identity (snd (set_volume b i v ! k)) = identity (snd (b ! k)) \<and>
     Entry.volume (snd (set_volume b i v ! k)) = (if k = i then v else Entry.volume (snd (b ! k)))"
  by (simp add: set_volume_def nth_list_update identity_def)

lemma take_volume_set_volume:
  "take_volume b i q = set_volume b i (Entry.volume (snd (b ! i)) - q)"
  by (simp add: take_volume_def set_volume_def)

lemma pos_count_set_volume_le:
  "i < length b \<Longrightarrow> 0 < Entry.volume (snd (b ! i)) \<Longrightarrow> pos_count (set_volume b i v) \<le> pos_count b"
  unfolding pos_count_def set_volume_def
proof (induction b arbitrary: i)
  case Nil
  then show ?case by simp
next
  case (Cons ke b)
  show ?case
  proof (cases i)
    case 0
    with Cons.prems show ?thesis by simp
  next
    case (Suc n)
    with Cons.IH[of n] Cons.prems show ?thesis by simp
  qed
qed

lemma pos_count_set_volume_less:
  "i < length b \<Longrightarrow> 0 < Entry.volume (snd (b ! i)) \<Longrightarrow> v \<le> 0 \<Longrightarrow>
    pos_count (set_volume b i v) < pos_count b"
  unfolding pos_count_def set_volume_def
proof (induction b arbitrary: i)
  case Nil
  then show ?case by simp
next
  case (Cons ke b)
  show ?case
  proof (cases i)
    case 0
    with Cons.prems show ?thesis by simp
  next
    case (Suc n)
    with Cons.IH[of n] Cons.prems show ?thesis by simp
  qed
qed

text \<open>
  What an iteration does to books with unique identities: it writes to the two entries
  it selected and to no other, and one of the two is left at 0.
\<close>

lemma unique_iteration_effect:
  assumes ub: "unique_identity b" and ua: "unique_identity a"
    and it: "iteration b a = Some (t, b2, a2)"
  obtains i j va vb where "i < length a" "j < length b"
    "0 < Entry.volume (snd (a ! i))" "0 < Entry.volume (snd (b ! j))"
    "t = trade_of (snd (a ! i), snd (b ! j))" "1 \<le> Trade.volume t"
    "a2 = set_volume a i va" "b2 = set_volume b j vb" "va = 0 \<or> vb = 0"
    "Entry.volume (snd (a ! i)) \<le> 2 ^ 53 \<longrightarrow> va = Entry.volume (snd (a ! i)) - Trade.volume t"
    "Entry.volume (snd (b ! j)) \<le> 2 ^ 53 \<longrightarrow> vb = Entry.volume (snd (b ! j)) - Trade.volume t"
proof -
  from ub ua it obtain i j where ij: "i < length a" "j < length b"
    "0 < Entry.volume (snd (a ! i))" "0 < Entry.volume (snd (b ! j))"
    "t = trade_of (snd (a ! i), snd (b ! j))"
    "a2 = set_volume a i
       (subtract_quantity (Entry.volume (snd (a ! i))) (double_of_long (Trade.volume t)))"
    "b2 = set_volume b j
       (subtract_quantity (Entry.volume (snd (b ! j))) (double_of_long (Trade.volume t)))"
    by (rule iteration_unique)
  let ?va = "Entry.volume (snd (a ! i))" and ?vb = "Entry.volume (snd (b ! j))"
  let ?q = "Trade.volume t"
  have q: "?q = min ?va ?vb" using ij(5) by simp
  then have q1: "1 \<le> ?q" using ij(3,4) by simp
  have zero: "subtract_quantity ?va (double_of_long ?q) = 0 \<or>
              subtract_quantity ?vb (double_of_long ?q) = 0"
  proof (cases "?va \<le> ?vb")
    case True
    then have "?q = ?va" using q by simp
    then show ?thesis by (simp add: subtract_quantity_self)
  next
    case False
    then have "?q = ?vb" using q by simp
    then show ?thesis by (simp add: subtract_quantity_self)
  qed
  have "subtract_quantity ?va (double_of_long ?q) = ?va - ?q" if "?va \<le> 2 ^ 53"
    using that q q1 ij(3,4) by (intro subtract_quantity_exact) simp_all
  then have ea: "?va \<le> 2 ^ 53 \<longrightarrow> subtract_quantity ?va (double_of_long ?q) = ?va - ?q"
    by blast
  have "subtract_quantity ?vb (double_of_long ?q) = ?vb - ?q" if "?vb \<le> 2 ^ 53"
    using that q q1 ij(3,4) by (intro subtract_quantity_exact) simp_all
  then have eb: "?vb \<le> 2 ^ 53 \<longrightarrow> subtract_quantity ?vb (double_of_long ?q) = ?vb - ?q"
    by blast
  show thesis
    using ij(1,2,3,4,5) q1 ij(6,7) zero ea eb by (rule that)
qed

subsection \<open>Invariants of every run\<close>

lemma untouched_unless_refl: "untouched_unless ids b b"
  by (simp add: untouched_unless_def list_all2_refl)

lemma untouched_unless_trans:
  "untouched_unless ids b b' \<Longrightarrow> untouched_unless ids' b' b'' \<Longrightarrow>
     untouched_unless (ids \<union> ids') b b''"
  unfolding untouched_unless_def by (erule (1) list_all2_trans[rotated]) auto

lemma untouched_unless_update_volume:
  "untouched_unless {(ex, f, p)} b (update_volume b ex f p q)"
  by (induction b ex f p q rule: update_volume.induct)
     (auto simp: untouched_unless_def identity_def list_all2_refl)

lemma iteration_untouched:
  assumes "iteration bids asks = Some (t, bids', asks')"
  shows "untouched_unless {sell_identity t} bids bids' \<and> untouched_unless {buy_identity t} asks asks'"
  using assms
  by (simp add: iteration_Some_iff untouched_unless_update_volume sell_identity_def buy_identity_def)

lemma iteration_origin:
  assumes "iteration bids asks = Some (t, bids', asks')"
  obtains ka ea kb eb where "(ka, ea) \<in> set asks" "(kb, eb) \<in> set bids"
    "0 < Entry.volume ea" "0 < Entry.volume eb" "exchange ea \<noteq> exchange eb"
    "t = trade_of (ea, eb)" "0 < pair_profit (ea, eb)"
proof -
  from assms have "best_trade bids asks = Some t" by (simp add: iteration_Some_iff)
  then obtain c where c: "c \<in> set (candidates asks bids)" "t = trade_of c" "0 < pair_profit c"
    by (rule best_trade_candidate)
  from c(1) obtain ka kb where "(ka, fst c) \<in> set asks" "(kb, snd c) \<in> set bids"
    "0 < Entry.volume (fst c)" "0 < Entry.volume (snd c)" "exchange (fst c) \<noteq> exchange (snd c)"
    by (auto simp: in_candidates_iff)
  then show thesis using c(2,3) by (intro that[of ka "fst c" kb "snd c"]) simp_all
qed

lemma run_invariant:
  assumes run: "find_best_arbitrage bids asks = Some (ts, bids', asks')"
  shows "entries_kept bids bids' \<and> entries_kept asks asks' \<and>
         untouched_unless (sell_identity ` set ts) bids bids' \<and>
         untouched_unless (buy_identity ` set ts) asks asks' \<and>
         (\<forall>t\<in>set ts. \<exists>ka ea kb eb.
            (ka, ea) \<in> set asks \<and> (kb, eb) \<in> set bids \<and> exchange ea \<noteq> exchange eb \<and>
            buy_identity t = identity ea \<and> sell_identity t = identity eb \<and>
            profit_per_unit t = pair_profit (ea, eb) \<and> 0 < profit_per_unit t \<and>
            1 \<le> Trade.volume t \<and>
            net_profit t = profit_per_unit t * real_of_int (Trade.volume t))"
proof -
  let ?G = "\<lambda>t. \<exists>ka ea kb eb.
            (ka, ea) \<in> set asks \<and> (kb, eb) \<in> set bids \<and> exchange ea \<noteq> exchange eb \<and>
            buy_identity t = identity ea \<and> sell_identity t = identity eb \<and>
            profit_per_unit t = pair_profit (ea, eb) \<and> 0 < profit_per_unit t \<and>
            1 \<le> Trade.volume t \<and>
            net_profit t = profit_per_unit t * real_of_int (Trade.volume t)"
  let ?I = "\<lambda>b a ts. entries_kept bids b \<and> entries_kept asks a \<and>
         untouched_unless (sell_identity ` set ts) bids b \<and>
         untouched_unless (buy_identity ` set ts) asks a \<and> (\<forall>t\<in>set ts. ?G t)"
  have init: "?I bids asks []"
    by (simp add: entries_kept_refl untouched_unless_refl)
  have step: "?I b2 a2 (ts @ [t])" if I: "?I b a ts" and it: "iteration b a = Some (t, b2, a2)"
    for b a ts t b2 a2
  proof -
    from iteration_entries_kept[OF it] I
    have low: "entries_kept bids b2" "entries_kept asks a2"
      by (blast intro: entries_kept_trans)+
    from iteration_untouched[OF it] I
    have "untouched_unless (sell_identity ` set ts \<union> {sell_identity t}) bids b2"
      "untouched_unless (buy_identity ` set ts \<union> {buy_identity t}) asks a2"
      by (blast intro: untouched_unless_trans)+
    then have unt: "untouched_unless (sell_identity ` set (ts @ [t])) bids b2"
      "untouched_unless (buy_identity ` set (ts @ [t])) asks a2"
      by simp_all
    from it obtain ka ea kb eb where o: "(ka, ea) \<in> set a" "(kb, eb) \<in> set b"
      "0 < Entry.volume ea" "0 < Entry.volume eb" "exchange ea \<noteq> exchange eb"
      "t = trade_of (ea, eb)" "0 < pair_profit (ea, eb)"
      by (rule iteration_origin)
    from I have la: "entries_kept asks a" and lb: "entries_kept bids b" by simp_all
    from entries_kept_mem[OF la o(1)] obtain ea0 where
      a0: "(ka, ea0) \<in> set asks" "identity ea = identity ea0" by blast
    from entries_kept_mem[OF lb o(2)] obtain eb0 where
      b0: "(kb, eb0) \<in> set bids" "identity eb = identity eb0" by blast
    have pp: "pair_profit (ea, eb) = pair_profit (ea0, eb0)"
      using a0(2) b0(2) by (intro pair_profit_identity) simp_all
    have "exchange ea0 \<noteq> exchange eb0"
      using o(5) a0(2) b0(2) by (simp add: identity_def)
    moreover have "buy_identity t = identity ea0" "sell_identity t = identity eb0"
      using o(6) a0(2) b0(2) by (simp_all add: buy_identity_def sell_identity_def identity_def)
    moreover have "profit_per_unit t = pair_profit (ea0, eb0)" "0 < profit_per_unit t"
      using o(6,7) pp by simp_all
    moreover have "1 \<le> Trade.volume t" using o(3,4,6) by simp
    moreover have "net_profit t = profit_per_unit t * real_of_int (Trade.volume t)"
      using o(6) by simp
    ultimately have "?G t" using a0(1) b0(1) by blast
    with I low unt show ?thesis by simp
  qed
  have "?I bids' asks' ts \<and> iteration bids' asks' = None"
  proof (rule arbitrage_loop_partial[where I = ?I])
    show "arbitrage_loop bids asks [] = Some (ts, bids', asks')"
      using run by (simp add: find_best_arbitrage_def)
    show "?I bids asks []" by (rule init)
    show "?I b2 a2 (ts @ [t])" if "?I b a ts" and "iteration b a = Some (t, b2, a2)"
      for b a ts t b2 a2
      using that by (rule step)
  qed
  then show ?thesis by simp
qed

text \<open>
  While every volume is a value of type \<open>long\<close> that the conversion to \<open>double\<close> keeps,
  as it is when no initial volume exceeds \<open>2^53\<close> in magnitude, no volume rises.
\<close>

lemma run_volumes_lowered:
  assumes run: "find_best_arbitrage bids asks = Some (ts, bids', asks')"
    and db: "double_longs bids" and da: "double_longs asks"
  shows "volumes_lowered bids bids' \<and> volumes_lowered asks asks'"
proof -
  let ?I = "\<lambda>b a (ts :: Trade list). volumes_lowered bids b \<and> volumes_lowered asks a \<and>
              double_longs b \<and> double_longs a"
  have "?I bids' asks' ts \<and> iteration bids' asks' = None"
  proof (rule arbitrage_loop_partial[where I = ?I])
    show "arbitrage_loop bids asks [] = Some (ts, bids', asks')"
      using run by (simp add: find_best_arbitrage_def)
    show "?I bids asks []" using db da by (simp add: volumes_lowered_refl)
    show "?I b2 a2 (ts @ [t])" if I: "?I b a ts" and it: "iteration b a = Some (t, b2, a2)"
      for b a ts t b2 a2
    proof -
      from I have "double_longs b" "double_longs a" by simp_all
      from iteration_volumes_lowered[OF it this] I show ?thesis
        by (blast intro: volumes_lowered_trans)
    qed
  qed
  then show ?thesis by simp
qed

subsection \<open>The run on the books of \<open>main\<close>\<close>

lemma subtract_quantity_small:
  "\<bar>v\<bar> \<le> 9007199254740992 \<Longrightarrow> \<bar>q\<bar> \<le> 9007199254740992 \<Longrightarrow> \<bar>v - q\<bar> \<le> 9007199254740992 \<Longrightarrow>
     subtract_quantity v (double_of_long q) = v - q"
  using subtract_quantity_exact[of v q] by simp

lemmas eval_defs = best_trade_def consider_bid_def effective_cost_def effective_proceed_def
  Let_def iteration_def subtract_quantity_small

lemma sample_run:
  "find_best_arbitrage sample_bids sample_asks = Some (sample_trades, final_bids, final_asks)"
  unfolding find_best_arbitrage_def sample_bids_def sample_asks_def sample_trades_def
    final_bids_def final_asks_def
  by (simp add: arbitrage_loop.simps eval_defs)

lemma sample_first_iteration:
  "iteration sample_bids sample_asks =
     Some (sample_trades ! 0, take_volume sample_bids 3 3, take_volume sample_asks 4 3)"
  unfolding sample_bids_def sample_asks_def sample_trades_def take_volume_def
  by (simp add: eval_defs)

lemma sample_unique: "unique_identity sample_bids" "unique_identity sample_asks"
  by (simp_all add: unique_identity_def identity_def sample_bids_def sample_asks_def)

lemma sample_nonneg: "nonneg_volumes sample_bids" "nonneg_volumes sample_asks"
  by (simp_all add: nonneg_volumes_def sample_bids_def sample_asks_def)

lemma sample_exact: "exact_range sample_bids" "exact_range sample_asks"
  by (simp_all add: exact_range_def sample_bids_def sample_asks_def)

subsection \<open>Properties of the returned trades and books\<close>

text \<open>
  C2. Every trade of the sequence that \<open>find_best_arbitrage\<close> returns has a profit per
  unit strictly greater than 0, whatever the two books are.
\<close>

theorem trades_strictly_profitable:
  assumes "find_best_arbitrage bids asks = Some (ts, bids', asks')"
  shows "\<forall>t\<in>set ts. 0 < profit_per_unit t"
  using run_invariant[OF assms] by blast

theorem trades_strictly_profitable_witness:
  "find_best_arbitrage sample_bids sample_asks = Some (sample_trades, final_bids, final_asks) \<and>
   list_all (\<lambda>t. 0 < profit_per_unit t) sample_trades"
  using trades_strictly_profitable[OF sample_run] sample_run by (simp add: list_all_iff)

text \<open>
  C7. For every trade that \<open>find_best_arbitrage\<close> returns, the exchange bought from
  differs from the exchange sold to.
\<close>

theorem trades_cross_venue:
  assumes "find_best_arbitrage bids asks = Some (ts, bids', asks')"
  shows "\<forall>t\<in>set ts. buy_exchange t \<noteq> sell_exchange t"
proof
  fix t assume "t \<in> set ts"
  with run_invariant[OF assms] obtain ea eb where "exchange ea \<noteq> exchange eb"
    "buy_identity t = identity ea" "sell_identity t = identity eb"
    by blast
  then show "buy_exchange t \<noteq> sell_exchange t"
    by (simp add: buy_identity_def sell_identity_def identity_def)
qed

theorem trades_cross_venue_witness:
  "find_best_arbitrage sample_bids sample_asks = Some (sample_trades, final_bids, final_asks) \<and>
   list_all (\<lambda>t. buy_exchange t \<noteq> sell_exchange t) sample_trades"
  using trades_cross_venue[OF sample_run] sample_run by (simp add: list_all_iff)

text \<open>
  C6. With \<open>effective_cost = ask.price * (1 + ask.fee)\<close> and
  \<open>effective_proceed = bid.price * (1 - bid.fee)\<close>, as exact arithmetic on the embedded
  numbers: for every pair that the scan considers, the value it compares with the best
  so far and records is \<open>effective_proceed - effective_cost\<close>; and every returned trade
  copies fee and price of an ask and of a bid of the books, its profit per unit is
  \<open>effective_proceed - effective_cost\<close> of the two, and its net profit is the profit per
  unit times the quantity.
\<close>

theorem trade_arithmetic:
  assumes "find_best_arbitrage bids asks = Some (ts, bids', asks')"
  shows "(\<forall>ask bid st. 0 < Entry.volume bid \<and> exchange ask \<noteq> exchange bid \<longrightarrow>
            consider_bid ask bid st =
              (if snd st < price bid * (1 - fee bid) - price ask * (1 + fee ask)
               then (Some (trade_of (ask, bid)),
                     price bid * (1 - fee bid) - price ask * (1 + fee ask))
               else st)) \<and>
         (\<forall>t\<in>set ts. \<exists>ka ask kb bid.
           (ka, ask) \<in> set asks \<and> (kb, bid) \<in> set bids \<and>
           buy_price t = price ask \<and> buy_fee t = fee ask \<and>
           sell_price t = price bid \<and> sell_fee t = fee bid \<and>
           effective_cost ask = price ask * (1 + fee ask) \<and>
           effective_proceed bid = price bid * (1 - fee bid) \<and>
           profit_per_unit t = effective_proceed bid - effective_cost ask \<and>
           net_profit t = profit_per_unit t * real_of_int (Trade.volume t))"
proof (intro conjI allI impI ballI)
  fix ask bid :: Entry and st :: "Trade option \<times> real"
  assume "0 < Entry.volume bid \<and> exchange ask \<noteq> exchange bid"
  then show "consider_bid ask bid st =
              (if snd st < price bid * (1 - fee bid) - price ask * (1 + fee ask)
               then (Some (trade_of (ask, bid)),
                     price bid * (1 - fee bid) - price ask * (1 + fee ask))
               else st)"
    by (simp add: consider_bid_adopt adopt_def pair_profit_def effective_cost_def
          effective_proceed_def)
next
  fix t assume "t \<in> set ts"
  with run_invariant[OF assms] obtain ka ea kb eb where
    o: "(ka, ea) \<in> set asks" "(kb, eb) \<in> set bids"
    "buy_identity t = identity ea" "sell_identity t = identity eb"
    "profit_per_unit t = pair_profit (ea, eb)"
    "net_profit t = profit_per_unit t * real_of_int (Trade.volume t)"
    by blast
  from o(3,4) have "buy_price t = price ea" "buy_fee t = fee ea"
    "sell_price t = price eb" "sell_fee t = fee eb"
    by (simp_all add: buy_identity_def sell_identity_def identity_def)
  moreover have "effective_cost ea = price ea * (1 + fee ea)"
    "effective_proceed eb = price eb * (1 - fee eb)"
    by (simp_all add: effective_cost_def effective_proceed_def)
  moreover have "profit_per_unit t = effective_proceed eb - effective_cost ea"
    using o(5) by (simp add: pair_profit_def)
  ultimately show "\<exists>ka ask kb bid.
           (ka, ask) \<in> set asks \<and> (kb, bid) \<in> set bids \<and>
           buy_price t = price ask \<and> buy_fee t = fee ask \<and>
           sell_price t = price bid \<and> sell_fee t = fee bid \<and>
           effective_cost ask = price ask * (1 + fee ask) \<and>
           effective_proceed bid = price bid * (1 - fee bid) \<and>
           profit_per_unit t = effective_proceed bid - effective_cost ask \<and>
           net_profit t = profit_per_unit t * real_of_int (Trade.volume t)"
    using o(1,2,6) by blast
qed

theorem trade_arithmetic_witness:
  "find_best_arbitrage sample_bids sample_asks = Some (sample_trades, final_bids, final_asks) \<and>
   list_all (\<lambda>t. profit_per_unit t = sell_price t * (1 - sell_fee t) - buy_price t * (1 + buy_fee t) \<and>
                  net_profit t = profit_per_unit t * real_of_int (Trade.volume t)) sample_trades"
proof -
  have "profit_per_unit t = sell_price t * (1 - sell_fee t) - buy_price t * (1 + buy_fee t) \<and>
        net_profit t = profit_per_unit t * real_of_int (Trade.volume t)"
    if "t \<in> set sample_trades" for t
    using trade_arithmetic[OF sample_run, THEN conjunct2] that by fastforce
  then show ?thesis using sample_run by (simp add: list_all_iff)
qed

text \<open>
  C9. If no ask and bid of positive volumes and different exchanges have a positive
  profit per unit, \<open>find_best_arbitrage\<close> returns the empty trade list and both books
  exactly as they were.
\<close>

theorem no_opportunity_changes_nothing:
  assumes "\<forall>(ka, ask)\<in>set asks. \<forall>(kb, bid)\<in>set bids.
             0 < Entry.volume ask \<and> 0 < Entry.volume bid \<and> exchange ask \<noteq> exchange bid \<longrightarrow>
             effective_proceed bid - effective_cost ask \<le> 0"
  shows "find_best_arbitrage bids asks = Some ([], bids, asks)"
proof -
  have "\<forall>c\<in>set (candidates asks bids). pair_profit c \<le> 0"
    using assms by (fastforce simp: in_candidates_iff pair_profit_def)
  then have "iteration bids asks = None"
    by (simp add: iteration_None_iff best_trade_None_iff)
  then show ?thesis
    unfolding find_best_arbitrage_def by (subst arbitrage_loop.simps) simp
qed

theorem no_opportunity_changes_nothing_witness:
  "find_best_arbitrage idle_bids idle_asks = Some ([], idle_bids, idle_asks)"
  by (rule no_opportunity_changes_nothing)
     (simp add: idle_bids_def idle_asks_def effective_cost_def effective_proceed_def)

text \<open>
  C1. One iteration of the loop. Among the pairs of an ask and a bid with positive
  volumes and different exchanges, in the order of the nested loops, the iteration
  records the trade of the pair at a position \<open>i\<close> such that its profit per unit is
  positive, no pair has a greater one and every earlier pair has a strictly smaller one
  (the first pair wins a tie); the quantity of the trade is the smaller of the two
  volumes of that pair. The iteration breaks exactly when no pair has a positive profit.
\<close>

theorem iteration_selects_first_best:
  "(iteration bids asks = None \<longleftrightarrow> (\<forall>c\<in>set (candidates asks bids). pair_profit c \<le> 0)) \<and>
   (\<forall>t bids' asks'. iteration bids asks = Some (t, bids', asks') \<longrightarrow>
      (\<exists>i. first_best (candidates asks bids) i \<and>
           t = trade_of (candidates asks bids ! i) \<and>
           Trade.volume t = min (Entry.volume (fst (candidates asks bids ! i)))
                                (Entry.volume (snd (candidates asks bids ! i)))))"
proof (intro conjI allI impI)
  show "iteration bids asks = None \<longleftrightarrow> (\<forall>c\<in>set (candidates asks bids). pair_profit c \<le> 0)"
    by (simp add: iteration_None_iff best_trade_None_iff)
next
  fix t bids' asks'
  assume "iteration bids asks = Some (t, bids', asks')"
  then have "best_trade bids asks = Some t" by (simp add: iteration_Some_iff)
  then obtain i where "first_best (candidates asks bids) i" "t = trade_of (candidates asks bids ! i)"
    by (auto simp: best_trade_Some_iff)
  then show "\<exists>i. first_best (candidates asks bids) i \<and>
           t = trade_of (candidates asks bids ! i) \<and>
           Trade.volume t = min (Entry.volume (fst (candidates asks bids ! i)))
                                (Entry.volume (snd (candidates asks bids ! i)))"
    by (intro exI[of _ i]) simp
qed

theorem iteration_selects_first_best_witness:
  "\<exists>i. first_best (candidates sample_asks sample_bids) i \<and>
       sample_trades ! 0 = trade_of (candidates sample_asks sample_bids ! i) \<and>
       Trade.volume (sample_trades ! 0) = 3"
proof -
  from iteration_selects_first_best[of sample_bids sample_asks] sample_first_iteration
  obtain i where "first_best (candidates sample_asks sample_bids) i"
    "sample_trades ! 0 = trade_of (candidates sample_asks sample_bids ! i)"
    by blast
  moreover have "Trade.volume (sample_trades ! 0) = 3" by (simp add: sample_trades_def)
  ultimately show ?thesis by blast
qed

text \<open>
  C5. In the trade sequence that \<open>find_best_arbitrage\<close> returns, the profit per unit
  never rises from one trade to the next.
\<close>

theorem profits_non_increasing:
  assumes run: "find_best_arbitrage bids asks = Some (ts, bids', asks')"
  shows "\<forall>i. Suc i < length ts \<longrightarrow> profit_per_unit (ts ! Suc i) \<le> profit_per_unit (ts ! i)"
proof -
  let ?R = "\<lambda>x y. profit_per_unit y \<le> profit_per_unit x"
  let ?I = "\<lambda>b a ts. sorted_wrt ?R ts \<and>
              (\<forall>t\<in>set ts. \<forall>c\<in>set (candidates a b). pair_profit c \<le> profit_per_unit t)"
  have "?I bids' asks' ts \<and> iteration bids' asks' = None"
  proof (rule arbitrage_loop_partial[where I = ?I])
    show "arbitrage_loop bids asks [] = Some (ts, bids', asks')"
      using run by (simp add: find_best_arbitrage_def)
    show "?I bids asks []" by simp
    show "?I b2 a2 (ts @ [t])" if I: "?I b a ts" and it: "iteration b a = Some (t, b2, a2)"
      for b a ts t b2 a2
    proof -
      from it have "best_trade b a = Some t" by (simp add: iteration_Some_iff)
      then obtain c where c: "c \<in> set (candidates a b)" "t = trade_of c"
        "\<forall>x\<in>set (candidates a b). pair_profit x \<le> pair_profit c"
        by (rule best_trade_candidate)
      have best: "\<forall>x\<in>set (candidates a b). pair_profit x \<le> profit_per_unit t"
        using c(2,3) by simp
      have below: "\<forall>x\<in>set ts. profit_per_unit t \<le> profit_per_unit x"
        using I c(1,2) by auto
      have later: "pair_profit c' \<le> profit_per_unit x"
        if x: "x \<in> set (ts @ [t])" and c': "c' \<in> set (candidates a2 b2)" for x c'
      proof -
        from iteration_entries_kept[OF it]
        have "entries_kept a a2" "entries_kept b b2" by simp_all
        from entries_kept_candidates[OF this c'] obtain c0 where
          c0: "c0 \<in> set (candidates a b)" "pair_profit c' = pair_profit c0" by metis
        from x consider "x \<in> set ts" | "x = t" by auto
        then show ?thesis
        proof cases
          case 1
          with I c0(1) show ?thesis unfolding c0(2) by blast
        next
          case 2
          with best c0(1) show ?thesis unfolding c0(2) by blast
        qed
      qed
      from I below have "sorted_wrt ?R (ts @ [t])" by (simp add: sorted_wrt_append)
      with later show ?thesis by blast
    qed
  qed
  then have "sorted_wrt ?R ts" by simp
  then show ?thesis by (auto simp: sorted_wrt_iff_nth_less)
qed

theorem profits_non_increasing_witness:
  "find_best_arbitrage sample_bids sample_asks = Some (sample_trades, final_bids, final_asks) \<and>
   profit_per_unit (sample_trades ! 1) \<le> profit_per_unit (sample_trades ! 0) \<and>
   profit_per_unit (sample_trades ! 2) \<le> profit_per_unit (sample_trades ! 1) \<and>
   profit_per_unit (sample_trades ! 3) \<le> profit_per_unit (sample_trades ! 2)"
proof -
  have len: "length sample_trades = 4" by (simp add: sample_trades_def)
  from profits_non_increasing[OF sample_run]
  have "Suc i < length sample_trades \<Longrightarrow>
          profit_per_unit (sample_trades ! Suc i) \<le> profit_per_unit (sample_trades ! i)" for i
    by blast
  from this[of 0] this[of 1] this[of 2] len sample_run show ?thesis
    by (simp add: numeral_2_eq_2 numeral_3_eq_3)
qed

text \<open>
  C8 as stated fails twice. Only selected entries lose volume: not when two entries of a
  book share one identity. On the asks \<open>dup_asks_at 5\<close> and the bid \<open>lone_bid 7\<close> the
  first iteration takes 5 from the first ask and exhausts it. The only pair the second
  iteration can select is the second ask with the bid; it records that trade, leaves the
  second ask as it was and lowers the first ask, which it did not select, to -2. The
  two asks are equal, so the run is the same in either iteration order. No volume ever
  rises: not above \<open>2^53\<close>. On the ask \<open>2^60 + 129\<close> of \<open>tall_asks\<close> and the bid
  \<open>lone_bid 3\<close>, books with unique identities, the subtraction of line 111 is one of
  doubles and leaves the ask at \<open>2^60 + 256\<close>.
\<close>

theorem selected_entry_counterexample:
  "find_best_arbitrage (lone_bid 7) (dup_asks_at 5) =
     Some ([dup_trade 5, dup_trade 2], lone_bid 0, dup_asks_at (- 2)) \<and>
   iteration (lone_bid 7) (dup_asks_at 5) = Some (dup_trade 5, lone_bid 2, dup_asks_at 0) \<and>
   candidates (dup_asks_at 0) (lone_bid 2) = [(snd (dup_asks_at 0 ! 1), snd (lone_bid 2 ! 0))] \<and>
   iteration (lone_bid 2) (dup_asks_at 0) = Some (dup_trade 2, lone_bid 0, dup_asks_at (- 2)) \<and>
   dup_asks_at (- 2) ! 1 = dup_asks_at 0 ! 1 \<and>
   Entry.volume (snd (dup_asks_at 0 ! 0)) = 0 \<and>
   Entry.volume (snd (dup_asks_at (- 2) ! 0)) = - 2 \<and>
   find_best_arbitrage (lone_bid 3) tall_asks =
     Some ([dup_trade 3], lone_bid 0,
           [(''ex1-0'', \<lparr>exchange = ''ex1'', fee = 0, price = 1, volume = 1152921504606847232\<rparr>)]) \<and>
   Entry.volume (snd (tall_asks ! 0)) = 1152921504606847105"
proof -
  have "find_best_arbitrage (lone_bid 7) (dup_asks_at 5) =
     Some ([dup_trade 5, dup_trade 2], lone_bid 0, dup_asks_at (- 2))"
    unfolding find_best_arbitrage_def lone_bid_def dup_asks_at_def dup_trade_def
    by (simp add: arbitrage_loop.simps eval_defs)
  moreover have "iteration (lone_bid 7) (dup_asks_at 5) = Some (dup_trade 5, lone_bid 2, dup_asks_at 0)"
    unfolding lone_bid_def dup_asks_at_def dup_trade_def by (simp add: eval_defs)
  moreover have "candidates (dup_asks_at 0) (lone_bid 2) =
      [(snd (dup_asks_at 0 ! 1), snd (lone_bid 2 ! 0))]"
    by (simp add: candidates_def bid_candidates_def dup_asks_at_def lone_bid_def)
  moreover have "iteration (lone_bid 2) (dup_asks_at 0) = Some (dup_trade 2, lone_bid 0, dup_asks_at (- 2))"
    unfolding lone_bid_def dup_asks_at_def dup_trade_def by (simp add: eval_defs)
  moreover have "find_best_arbitrage (lone_bid 3) tall_asks =
     Some ([dup_trade 3], lone_bid 0,
           [(''ex1-0'', \<lparr>exchange = ''ex1'', fee = 0, price = 1, volume = 1152921504606847232\<rparr>)])"
    unfolding find_best_arbitrage_def lone_bid_def tall_asks_def dup_trade_def
    by (simp add: arbitrage_loop.simps eval_defs tall_subtract)
  ultimately show ?thesis by (simp add: dup_asks_at_def tall_asks_def)
qed

text \<open>
  C8, amended. \<open>find_best_arbitrage\<close> leaves both books with the same entries under the
  same keys, each with its exchange, fee and price; the only entries whose volume changes
  are asks with the identity (exchange, fee, price) of the buy side of a returned trade
  and bids with the identity of the sell side of one; when no initial volume exceeds
  \<open>2^53\<close> in magnitude, no volume is higher than before; and on books in which the
  identities are unique, all that an iteration changes is the volume of the two entries
  it selected, which it lowers by the quantity of the trade when no volume exceeds
  \<open>2^53\<close> in magnitude.
\<close>

theorem books_keep_entries:
  assumes "find_best_arbitrage bids asks = Some (ts, bids', asks')"
  shows "entries_kept bids bids' \<and> entries_kept asks asks' \<and>
         untouched_unless (sell_identity ` set ts) bids bids' \<and>
         untouched_unless (buy_identity ` set ts) asks asks' \<and>
         (exact_range bids \<and> exact_range asks \<longrightarrow>
            volumes_lowered bids bids' \<and> volumes_lowered asks asks') \<and>
         (\<forall>b a t b2 a2. unique_identity b \<and> unique_identity a \<and>
            iteration b a = Some (t, b2, a2) \<longrightarrow>
            (\<exists>i j va vb. i < length a \<and> j < length b \<and>
               t = trade_of (snd (a ! i), snd (b ! j)) \<and> 1 \<le> Trade.volume t \<and>
               a2 = set_volume a i va \<and> b2 = set_volume b j vb \<and>
               (exact_range a \<and> exact_range b \<longrightarrow>
                  a2 = take_volume a i (Trade.volume t) \<and>
                  b2 = take_volume b j (Trade.volume t))))"
proof -
  have lowered: "volumes_lowered bids bids' \<and> volumes_lowered asks asks'"
    if "exact_range bids \<and> exact_range asks"
    using run_volumes_lowered[OF assms] that by (simp add: exact_range_double_longs)
  have step: "\<exists>i j va vb. i < length a \<and> j < length b \<and>
               t = trade_of (snd (a ! i), snd (b ! j)) \<and> 1 \<le> Trade.volume t \<and>
               a2 = set_volume a i va \<and> b2 = set_volume b j vb \<and>
               (exact_range a \<and> exact_range b \<longrightarrow>
                  a2 = take_volume a i (Trade.volume t) \<and>
                  b2 = take_volume b j (Trade.volume t))"
    if "unique_identity b \<and> unique_identity a \<and> iteration b a = Some (t, b2, a2)"
    for b a t b2 a2
  proof -
    from that have "unique_identity b" "unique_identity a" "iteration b a = Some (t, b2, a2)"
      by simp_all
    then obtain i j va vb where ij: "i < length a" "j < length b"
      "t = trade_of (snd (a ! i), snd (b ! j))" "1 \<le> Trade.volume t"
      "a2 = set_volume a i va" "b2 = set_volume b j vb"
      and ea: "Entry.volume (snd (a ! i)) \<le> 2 ^ 53 \<longrightarrow> va = Entry.volume (snd (a ! i)) - Trade.volume t"
      and eb: "Entry.volume (snd (b ! j)) \<le> 2 ^ 53 \<longrightarrow> vb = Entry.volume (snd (b ! j)) - Trade.volume t"
      by (rule unique_iteration_effect)
    have "a2 = take_volume a i (Trade.volume t) \<and> b2 = take_volume b j (Trade.volume t)"
      if "exact_range a \<and> exact_range b"
    proof -
      from that ij(1,2) have "\<bar>Entry.volume (snd (a ! i))\<bar> \<le> 2 ^ 53"
        "\<bar>Entry.volume (snd (b ! j))\<bar> \<le> 2 ^ 53"
        by (simp_all add: exact_range_def list_all_length)
      then have "Entry.volume (snd (a ! i)) \<le> 2 ^ 53" "Entry.volume (snd (b ! j)) \<le> 2 ^ 53"
        by linarith+
      with ea eb show ?thesis by (simp add: ij(5,6) take_volume_set_volume)
    qed
    with ij show ?thesis by blast
  qed
  from run_invariant[OF assms] lowered step show ?thesis by blast
qed

theorem books_keep_entries_witness:
  "find_best_arbitrage sample_bids sample_asks = Some (sample_trades, final_bids, final_asks) \<and>
   entries_kept sample_bids final_bids \<and> entries_kept sample_asks final_asks \<and>
   untouched_unless (sell_identity ` set sample_trades) sample_bids final_bids \<and>
   untouched_unless (buy_identity ` set sample_trades) sample_asks final_asks \<and>
   volumes_lowered sample_bids final_bids \<and> volumes_lowered sample_asks final_asks \<and>
   (\<exists>i j. sample_trades ! 0 = trade_of (snd (sample_asks ! i), snd (sample_bids ! j)) \<and>
      take_volume sample_asks 4 3 = take_volume sample_asks i (Trade.volume (sample_trades ! 0)) \<and>
      take_volume sample_bids 3 3 = take_volume sample_bids j (Trade.volume (sample_trades ! 0)))"
proof -
  note frame = books_keep_entries[OF sample_run]
  from frame sample_exact
  have low: "volumes_lowered sample_bids final_bids" "volumes_lowered sample_asks final_asks"
    by simp_all
  from frame sample_unique sample_exact sample_first_iteration
  have "\<exists>i j. sample_trades ! 0 = trade_of (snd (sample_asks ! i), snd (sample_bids ! j)) \<and>
      take_volume sample_asks 4 3 = take_volume sample_asks i (Trade.volume (sample_trades ! 0)) \<and>
      take_volume sample_bids 3 3 = take_volume sample_bids j (Trade.volume (sample_trades ! 0))"
    by blast
  with frame low sample_run show ?thesis by simp
qed

subsection \<open>Runs on books with unique identities\<close>

lemma take_volume_length [simp]: "length (take_volume b i q) = length b"
  by (simp add: take_volume_def)

lemma take_volume_nth:
  "k < length b \<Longrightarrow>
     identity (snd (take_volume b i q ! k)) = identity (snd (b ! k)) \<and>
     Entry.volume (snd (take_volume b i q ! k)) =
       Entry.volume (snd (b ! k)) - (if k = i then q else 0)"
  by (simp add: take_volume_def nth_list_update identity_def)

lemma unique_identity_nth:
  "unique_identity b \<Longrightarrow> i < length b \<Longrightarrow> k < length b \<Longrightarrow>
     identity (snd (b ! k)) = identity (snd (b ! i)) \<longleftrightarrow> k = i"
  unfolding unique_identity_def
  using nth_eq_iff_index_eq[of "map (\<lambda>ke. identity (snd ke)) b" k i] by simp

lemma pos_count_le_length: "pos_count b \<le> length b"
  by (simp add: pos_count_def)

lemma pos_count_le_total_volume: "nonneg_volumes b \<Longrightarrow> int (pos_count b) \<le> total_volume b"
  unfolding nonneg_volumes_def total_volume_def pos_count_def
  by (induction b) auto

text \<open>
  An iteration on books with unique identities keeps the identities unique and lowers
  the number of entries of positive volume.
\<close>

lemma unique_iteration_count:
  assumes ub: "unique_identity b" and ua: "unique_identity a"
    and it: "iteration b a = Some (t, b2, a2)"
  shows "unique_identity b2 \<and> unique_identity a2 \<and>
         Suc (pos_count b2 + pos_count a2) \<le> pos_count b + pos_count a"
proof -
  from iteration_entries_kept[OF it] ub ua
  have u2: "unique_identity b2" "unique_identity a2"
    by (blast intro: entries_kept_unique)+
  from ub ua it obtain i j va vb where ij: "i < length a" "j < length b"
    "0 < Entry.volume (snd (a ! i))" "0 < Entry.volume (snd (b ! j))"
    "a2 = set_volume a i va" "b2 = set_volume b j vb" "va = 0 \<or> vb = 0"
    by (rule unique_iteration_effect)
  have lea: "pos_count a2 \<le> pos_count a" and leb: "pos_count b2 \<le> pos_count b"
    unfolding ij(5,6) using ij(1,2,3,4) by (simp_all add: pos_count_set_volume_le)
  from ij(7) have "pos_count a2 < pos_count a \<or> pos_count b2 < pos_count b"
  proof
    assume "va = 0"
    then show ?thesis unfolding ij(5) using ij(1,3) by (simp add: pos_count_set_volume_less)
  next
    assume "vb = 0"
    then show ?thesis unfolding ij(6) using ij(2,4) by (simp add: pos_count_set_volume_less)
  qed
  with lea leb u2 show ?thesis by linarith
qed

lemma unique_loop_total:
  assumes ub: "unique_identity bids" and ua: "unique_identity asks"
    and init: "I bids asks trades"
    and step: "\<And>b a ts t b2 a2. unique_identity b \<Longrightarrow> unique_identity a \<Longrightarrow> I b a ts \<Longrightarrow>
                 iteration b a = Some (t, b2, a2) \<Longrightarrow> I b2 a2 (ts @ [t])"
  shows "\<exists>ts' b' a'. arbitrage_loop bids asks trades = Some (ts', b', a') \<and> I b' a' ts'"
proof -
  let ?J = "\<lambda>b a ts. unique_identity b \<and> unique_identity a \<and> I b a ts"
  let ?m = "\<lambda>b a. pos_count b + pos_count a"
  have "\<exists>ts' b' a'. arbitrage_loop bids asks trades = Some (ts', b', a') \<and>
          ?J b' a' ts' \<and> iteration b' a' = None"
  proof (rule arbitrage_loop_total[where I = ?J and m = ?m])
    show "?J bids asks trades" using ub ua init by simp
    show "?J b2 a2 (ts @ [t]) \<and> ?m b2 a2 < ?m b a"
      if J: "?J b a ts" and it: "iteration b a = Some (t, b2, a2)" for b a ts t b2 a2
    proof -
      from J have u: "unique_identity b" "unique_identity a" and I: "I b a ts" by simp_all
      from unique_iteration_count[OF u it] step[OF u I it] show ?thesis by simp
    qed
  qed
  then show ?thesis by blast
qed

text \<open>
  The run on books with unique identities returns, with at most as many trades as there
  are entries of positive volume.
\<close>

lemma unique_run_returns:
  assumes ub: "unique_identity bids" and ua: "unique_identity asks"
  shows "\<exists>ts bids' asks'. find_best_arbitrage bids asks = Some (ts, bids', asks') \<and>
           (\<forall>t\<in>set ts. 1 \<le> Trade.volume t) \<and>
           length ts \<le> pos_count bids + pos_count asks"
proof -
  let ?I = "\<lambda>b a ts. length ts + (pos_count b + pos_count a) \<le> pos_count bids + pos_count asks \<and>
                      (\<forall>t\<in>set ts. 1 \<le> Trade.volume t)"
  have "\<exists>ts b' a'. arbitrage_loop bids asks [] = Some (ts, b', a') \<and> ?I b' a' ts"
  proof (rule unique_loop_total[where I = ?I, OF ub ua])
    show "?I bids asks []" by simp
    show "?I b2 a2 (ts @ [t])"
      if u: "unique_identity b" "unique_identity a" and I: "?I b a ts"
        and it: "iteration b a = Some (t, b2, a2)" for b a ts t b2 a2
      using unique_iteration_count[OF u it] iteration_quantity[OF it] I by simp
  qed
  then obtain ts b' a' where run: "arbitrage_loop bids asks [] = Some (ts, b', a')"
    and I: "?I b' a' ts" by blast
  from I have "length ts \<le> pos_count bids + pos_count asks" by linarith
  with run I show ?thesis unfolding find_best_arbitrage_def by blast
qed

text \<open>
  C10. On books in which the identities (exchange, fee, price) are unique, the matcher
  returns, every returned trade has a quantity of at least 1, and there are at most as
  many trades as the two books have entries of positive volume, hence at most as many as
  they have entries. Every iteration on such books leaves one of the two entries it
  matched with volume exactly 0. (That the volumes are not negative is not needed.)
\<close>

theorem trades_bounded_by_entries:
  assumes ub: "unique_identity bids" and ua: "unique_identity asks"
  shows "(\<exists>ts bids' asks'. find_best_arbitrage bids asks = Some (ts, bids', asks') \<and>
            (\<forall>t\<in>set ts. 1 \<le> Trade.volume t) \<and>
            length ts \<le> pos_count bids + pos_count asks \<and>
            length ts \<le> length bids + length asks) \<and>
         (\<forall>b a t b2 a2. unique_identity b \<and> unique_identity a \<and>
            iteration b a = Some (t, b2, a2) \<longrightarrow>
            (\<exists>i j. i < length a \<and> j < length b \<and> t = trade_of (snd (a ! i), snd (b ! j)) \<and>
               1 \<le> Trade.volume t \<and>
               (Entry.volume (snd (a2 ! i)) = 0 \<or> Entry.volume (snd (b2 ! j)) = 0)))"
proof (rule conjI)
  from unique_run_returns[OF ub ua] obtain ts bids' asks' where
    run: "find_best_arbitrage bids asks = Some (ts, bids', asks')"
    and q: "\<forall>t\<in>set ts. 1 \<le> Trade.volume t"
    and pos: "length ts \<le> pos_count bids + pos_count asks"
    by blast
  note pos
  also have "pos_count bids + pos_count asks \<le> length bids + length asks"
    using pos_count_le_length[of bids] pos_count_le_length[of asks] by linarith
  finally have "length ts \<le> length bids + length asks" .
  with run q pos show "\<exists>ts bids' asks'. find_best_arbitrage bids asks = Some (ts, bids', asks') \<and>
            (\<forall>t\<in>set ts. 1 \<le> Trade.volume t) \<and>
            length ts \<le> pos_count bids + pos_count asks \<and>
            length ts \<le> length bids + length asks"
    by blast
next
  show "\<forall>b a t b2 a2. unique_identity b \<and> unique_identity a \<and>
            iteration b a = Some (t, b2, a2) \<longrightarrow>
            (\<exists>i j. i < length a \<and> j < length b \<and> t = trade_of (snd (a ! i), snd (b ! j)) \<and>
               1 \<le> Trade.volume t \<and>
               (Entry.volume (snd (a2 ! i)) = 0 \<or> Entry.volume (snd (b2 ! j)) = 0))"
  proof (intro allI impI)
    fix b a t b2 a2
    assume "unique_identity b \<and> unique_identity a \<and> iteration b a = Some (t, b2, a2)"
    then have "unique_identity b" "unique_identity a" "iteration b a = Some (t, b2, a2)"
      by simp_all
    then obtain i j va vb where ij: "i < length a" "j < length b"
      "t = trade_of (snd (a ! i), snd (b ! j))" "1 \<le> Trade.volume t"
      "a2 = set_volume a i va" "b2 = set_volume b j vb" "va = 0 \<or> vb = 0"
      by (rule unique_iteration_effect)
    have "Entry.volume (snd (a2 ! i)) = va" "Entry.volume (snd (b2 ! j)) = vb"
      unfolding ij(5,6) using set_volume_nth[OF ij(1), of i va] set_volume_nth[OF ij(2), of j vb]
      by simp_all
    with ij(1,2,3,4,7) show "\<exists>i j. i < length a \<and> j < length b \<and> t = trade_of (snd (a ! i), snd (b ! j)) \<and>
               1 \<le> Trade.volume t \<and>
               (Entry.volume (snd (a2 ! i)) = 0 \<or> Entry.volume (snd (b2 ! j)) = 0)"
      by blast
  qed
qed

theorem trades_bounded_by_entries_witness:
  "find_best_arbitrage sample_bids sample_asks = Some (sample_trades, final_bids, final_asks) \<and>
   list_all (\<lambda>t. 1 \<le> Trade.volume t) sample_trades \<and>
   length sample_trades \<le> length sample_bids + length sample_asks \<and>
   (\<exists>i j. sample_trades ! 0 = trade_of (snd (sample_asks ! i), snd (sample_bids ! j)) \<and>
      (Entry.volume (snd (take_volume sample_asks 4 3 ! i)) = 0 \<or>
       Entry.volume (snd (take_volume sample_bids 3 3 ! j)) = 0))"
proof -
  note bound = trades_bounded_by_entries[OF sample_unique]
  from bound sample_run
  have "list_all (\<lambda>t. 1 \<le> Trade.volume t) sample_trades"
    "length sample_trades \<le> length sample_bids + length sample_asks"
    by (auto simp: list_all_iff)
  moreover from bound sample_unique sample_first_iteration
  have "\<exists>i j. sample_trades ! 0 = trade_of (snd (sample_asks ! i), snd (sample_bids ! j)) \<and>
      (Entry.volume (snd (take_volume sample_asks 4 3 ! i)) = 0 \<or>
       Entry.volume (snd (take_volume sample_bids 3 3 ! j)) = 0)"
    by blast
  ultimately show ?thesis using sample_run by simp
qed

subsection \<open>Termination\<close>

lemma double_of_long_3: "double_of_long 3 = 3"
  using double_of_long_exact[of 3] by simp

lemma dup_iteration:
  assumes "v \<le> 0" and "w \<le> 0"
  shows "iteration (dup_bids_at w) (dup_asks_at v) =
           Some (dup_trade 3, dup_bids_at (subtract_quantity w (double_of_long 3)),
                 dup_asks_at (subtract_quantity v (double_of_long 3)))"
  using assms unfolding dup_bids_at_def dup_asks_at_def dup_trade_def
  by (simp add: eval_defs)

lemma dup_loop_diverges:
  assumes "v \<le> 0" and "w \<le> 0"
  shows "arbitrage_loop (dup_bids_at w) (dup_asks_at v) ts = None"
proof (rule ccontr)
  assume "arbitrage_loop (dup_bids_at w) (dup_asks_at v) ts \<noteq> None"
  then obtain r where run: "arbitrage_loop (dup_bids_at w) (dup_asks_at v) ts = Some r"
    by blast
  let ?P = "\<lambda>b a (ts :: Trade list) (r :: Trade list \<times> book \<times> book).
              \<not> (\<exists>v w. v \<le> 0 \<and> w \<le> 0 \<and> b = dup_bids_at w \<and> a = dup_asks_at v)"
  have "?P (dup_bids_at w) (dup_asks_at v) ts r"
  proof (rule arbitrage_loop.raw_induct[where P = ?P, OF _ run])
    fix loop :: "book \<Rightarrow> book \<Rightarrow> Trade list \<Rightarrow> (Trade list \<times> book \<times> book) option"
    fix b a ts r
    assume IH: "\<And>b a ts r. loop b a ts = Some r \<Longrightarrow> ?P b a ts r"
    assume body: "(case iteration b a of None \<Rightarrow> Some (ts, b, a)
                   | Some (t, b2, a2) \<Rightarrow> loop b2 a2 (ts @ [t])) = Some r"
    show "?P b a ts r"
    proof
      assume "\<exists>v w. v \<le> 0 \<and> w \<le> 0 \<and> b = dup_bids_at w \<and> a = dup_asks_at v"
      then obtain v w where vw: "v \<le> 0" "w \<le> 0" "b = dup_bids_at w" "a = dup_asks_at v"
        by blast
      let ?v = "subtract_quantity v (double_of_long 3)"
      let ?w = "subtract_quantity w (double_of_long 3)"
      have next_le: "?v \<le> 0" "?w \<le> 0"
        using vw(1,2) by (simp_all add: subtract_quantity_nonpos double_of_long_3)
      from body have "loop (dup_bids_at ?w) (dup_asks_at ?v) (ts @ [dup_trade 3]) = Some r"
        by (simp add: vw(3,4) dup_iteration[OF vw(1,2)])
      from IH[OF this]
      have "\<not> (?v \<le> 0 \<and> ?w \<le> 0 \<and>
               dup_bids_at ?w = dup_bids_at ?w \<and> dup_asks_at ?v = dup_asks_at ?v)"
        by blast
      with next_le show False by simp
    qed
  qed
  with assms show False by blast
qed

lemma dup_run_diverges: "find_best_arbitrage dup_bids dup_asks = None"
proof -
  have 1: "iteration (dup_bids_at 3) (dup_asks_at 5) = Some (dup_trade 3, dup_bids_at 0, dup_asks_at 2)"
    unfolding dup_bids_at_def dup_asks_at_def dup_trade_def by (simp add: eval_defs)
  have 2: "iteration (dup_bids_at 0) (dup_asks_at 2) = Some (dup_trade 2, dup_bids_at (- 2), dup_asks_at 0)"
    unfolding dup_bids_at_def dup_asks_at_def dup_trade_def by (simp add: eval_defs)
  have "find_best_arbitrage dup_bids dup_asks =
          arbitrage_loop (dup_bids_at 0) (dup_asks_at 2) [dup_trade 3]"
    unfolding find_best_arbitrage_def dup_bids_def dup_asks_def
    by (subst arbitrage_loop.simps) (simp add: 1)
  also have "\<dots> = arbitrage_loop (dup_bids_at (- 2)) (dup_asks_at 0) [dup_trade 3, dup_trade 2]"
    by (subst arbitrage_loop.simps) (simp add: 2)
  also have "\<dots> = None" by (rule dup_loop_diverges) simp_all
  finally show ?thesis .
qed

lemma neg_run:
  "find_best_arbitrage neg_bids neg_asks =
     Some ([dup_trade 5],
           [(''ex2-0'', \<lparr>exchange = ''ex2'', fee = 0, price = 2, volume = 0\<rparr>),
            (''ex3-0'', \<lparr>exchange = ''ex3'', fee = 0, price = 2, volume = - 100\<rparr>)],
           [(''ex1-0'', \<lparr>exchange = ''ex1'', fee = 0, price = 1, volume = 0\<rparr>)])"
  unfolding find_best_arbitrage_def neg_bids_def neg_asks_def dup_trade_def
  by (simp add: arbitrage_loop.simps eval_defs)

text \<open>
  C3 as stated (every finite input terminates with at most as many trades as the sum of
  all initial volumes) fails twice. On \<open>dup_bids\<close> and \<open>dup_asks\<close>, where two keys share
  one identity, \<open>update_volume\<close> lowers the first entry of that identity while the scan
  keeps selecting the second one: the loop never reaches \<open>break\<close>. On \<open>neg_bids\<close> and
  \<open>neg_asks\<close> the matcher returns one trade although the initial volumes sum to -90.
\<close>

theorem termination_bound_counterexample:
  "find_best_arbitrage dup_bids dup_asks = None \<and>
   find_best_arbitrage neg_bids neg_asks =
     Some ([dup_trade 5],
           [(''ex2-0'', \<lparr>exchange = ''ex2'', fee = 0, price = 2, volume = 0\<rparr>),
            (''ex3-0'', \<lparr>exchange = ''ex3'', fee = 0, price = 2, volume = - 100\<rparr>)],
           [(''ex1-0'', \<lparr>exchange = ''ex1'', fee = 0, price = 1, volume = 0\<rparr>)]) \<and>
   total_volume neg_bids + total_volume neg_asks < int (length [dup_trade 5])"
  using dup_run_diverges neg_run by (simp add: total_volume_def neg_bids_def neg_asks_def)

text \<open>
  C3, amended. On books in which the identities (exchange, fee, price) are unique,
  \<open>find_best_arbitrage\<close> returns; if moreover no initial volume is negative, the number
  of trades is at most the sum of all initial volumes of both books. Every iteration on
  books with unique identities strictly lowers the volume of at least one of the two
  entries it matched.
\<close>

theorem unique_books_terminate:
  assumes ub: "unique_identity bids" and ua: "unique_identity asks"
  shows "(\<exists>ts bids' asks'. find_best_arbitrage bids asks = Some (ts, bids', asks') \<and>
            (nonneg_volumes bids \<and> nonneg_volumes asks \<longrightarrow>
               int (length ts) \<le> total_volume bids + total_volume asks)) \<and>
         (\<forall>b a t b2 a2. unique_identity b \<and> unique_identity a \<and>
            iteration b a = Some (t, b2, a2) \<longrightarrow>
            (\<exists>i j. i < length a \<and> j < length b \<and> t = trade_of (snd (a ! i), snd (b ! j)) \<and>
               (Entry.volume (snd (a2 ! i)) < Entry.volume (snd (a ! i)) \<or>
                Entry.volume (snd (b2 ! j)) < Entry.volume (snd (b ! j)))))"
proof (rule conjI)
  from unique_run_returns[OF ub ua] obtain ts bids' asks' where
    run: "find_best_arbitrage bids asks = Some (ts, bids', asks')"
    and pos: "length ts \<le> pos_count bids + pos_count asks"
    by blast
  have "int (length ts) \<le> total_volume bids + total_volume asks"
    if "nonneg_volumes bids \<and> nonneg_volumes asks"
    using that pos pos_count_le_total_volume[of bids] pos_count_le_total_volume[of asks]
    by linarith
  with run show "\<exists>ts bids' asks'. find_best_arbitrage bids asks = Some (ts, bids', asks') \<and>
            (nonneg_volumes bids \<and> nonneg_volumes asks \<longrightarrow>
               int (length ts) \<le> total_volume bids + total_volume asks)"
    by blast
next
  show "\<forall>b a t b2 a2. unique_identity b \<and> unique_identity a \<and>
            iteration b a = Some (t, b2, a2) \<longrightarrow>
            (\<exists>i j. i < length a \<and> j < length b \<and> t = trade_of (snd (a ! i), snd (b ! j)) \<and>
               (Entry.volume (snd (a2 ! i)) < Entry.volume (snd (a ! i)) \<or>
                Entry.volume (snd (b2 ! j)) < Entry.volume (snd (b ! j))))"
  proof (intro allI impI)
    fix b a t b2 a2
    assume "unique_identity b \<and> unique_identity a \<and> iteration b a = Some (t, b2, a2)"
    then have "unique_identity b" "unique_identity a" "iteration b a = Some (t, b2, a2)"
      by simp_all
    then obtain i j va vb where ij: "i < length a" "j < length b"
      "0 < Entry.volume (snd (a ! i))" "0 < Entry.volume (snd (b ! j))"
      "t = trade_of (snd (a ! i), snd (b ! j))"
      "a2 = set_volume a i va" "b2 = set_volume b j vb" "va = 0 \<or> vb = 0"
      by (rule unique_iteration_effect)
    have "Entry.volume (snd (a2 ! i)) = va" "Entry.volume (snd (b2 ! j)) = vb"
      unfolding ij(6,7) using set_volume_nth[OF ij(1), of i va] set_volume_nth[OF ij(2), of j vb]
      by simp_all
    with ij(3,4,8) have "Entry.volume (snd (a2 ! i)) < Entry.volume (snd (a ! i)) \<or>
                Entry.volume (snd (b2 ! j)) < Entry.volume (snd (b ! j))"
      by auto
    with ij(1,2,5) show "\<exists>i j. i < length a \<and> j < length b \<and> t = trade_of (snd (a ! i), snd (b ! j)) \<and>
               (Entry.volume (snd (a2 ! i)) < Entry.volume (snd (a ! i)) \<or>
                Entry.volume (snd (b2 ! j)) < Entry.volume (snd (b ! j)))"
      by blast
  qed
qed

theorem unique_books_terminate_witness:
  "find_best_arbitrage sample_bids sample_asks = Some (sample_trades, final_bids, final_asks) \<and>
   int (length sample_trades) \<le> total_volume sample_bids + total_volume sample_asks \<and>
   (\<exists>i j. sample_trades ! 0 = trade_of (snd (sample_asks ! i), snd (sample_bids ! j)) \<and>
      (Entry.volume (snd (take_volume sample_asks 4 3 ! i)) < Entry.volume (snd (sample_asks ! i)) \<or>
       Entry.volume (snd (take_volume sample_bids 3 3 ! j)) < Entry.volume (snd (sample_bids ! j))))"
proof -
  note fin = unique_books_terminate[OF sample_unique]
  from fin sample_run sample_nonneg
  have "int (length sample_trades) \<le> total_volume sample_bids + total_volume sample_asks"
    by auto
  moreover from fin sample_unique sample_first_iteration
  have "\<exists>i j. sample_trades ! 0 = trade_of (snd (sample_asks ! i), snd (sample_bids ! j)) \<and>
      (Entry.volume (snd (take_volume sample_asks 4 3 ! i)) < Entry.volume (snd (sample_asks ! i)) \<or>
       Entry.volume (snd (take_volume sample_bids 3 3 ! j)) < Entry.volume (snd (sample_bids ! j)))"
    by blast
  ultimately show ?thesis using sample_run by simp
qed

subsection \<open>Volume conservation\<close>

lemma consumed_snoc:
  "consumed side (ts @ [t]) x = consumed side ts x + (if side t = x then Trade.volume t else 0)"
  by (simp add: consumed_def)

lemma conserved_init: "nonneg_volumes b \<Longrightarrow> conserved side [] b b"
  by (simp add: conserved_def consumed_def nonneg_volumes_def list_all_length)

lemma conserved_step:
  assumes u0: "unique_identity b0" and c: "conserved side ts b0 b"
    and i: "i < length b" and t: "side t = identity (snd (b ! i))"
    and q: "Trade.volume t \<le> Entry.volume (snd (b ! i))"
  shows "conserved side (ts @ [t]) b0 (take_volume b i (Trade.volume t))"
proof -
  from c have len: "length b = length b0" by (simp add: conserved_def)
  have "identity (snd (take_volume b i (Trade.volume t) ! k)) = identity (snd (b0 ! k)) \<and>
        consumed side (ts @ [t]) (identity (snd (b0 ! k))) \<le> Entry.volume (snd (b0 ! k)) \<and>
        Entry.volume (snd (take_volume b i (Trade.volume t) ! k)) =
          Entry.volume (snd (b0 ! k)) - consumed side (ts @ [t]) (identity (snd (b0 ! k))) \<and>
        0 \<le> Entry.volume (snd (take_volume b i (Trade.volume t) ! k))"
    if k: "k < length b0" for k
  proof -
    from c k have ck: "identity (snd (b ! k)) = identity (snd (b0 ! k))"
      "Entry.volume (snd (b ! k)) =
          Entry.volume (snd (b0 ! k)) - consumed side ts (identity (snd (b0 ! k)))"
      "0 \<le> Entry.volume (snd (b ! k))"
      by (simp_all add: conserved_def)
    from c i len have ci: "identity (snd (b ! i)) = identity (snd (b0 ! i))"
      by (simp add: conserved_def)
    have same: "side t = identity (snd (b0 ! k)) \<longleftrightarrow> k = i"
      using unique_identity_nth[OF u0, of i k] i k len t ci by auto
    from k len have kb: "k < length b" by simp
    note tv = take_volume_nth[OF kb, of i "Trade.volume t"]
    show ?thesis
    proof (cases "k = i")
      case True
      with tv ck q same show ?thesis by (simp add: consumed_snoc)
    next
      case False
      with tv ck same show ?thesis by (simp add: consumed_snoc)
    qed
  qed
  with len show ?thesis by (simp add: conserved_def)
qed

lemma exact_range_take_volume:
  assumes "exact_range b" and "i < length b" and "0 \<le> q" and "q \<le> Entry.volume (snd (b ! i))"
  shows "exact_range (take_volume b i q)"
proof -
  have "\<bar>Entry.volume (snd (take_volume b i q ! k))\<bar> \<le> 2 ^ 53" if "k < length b" for k
  proof -
    from assms(1) that have "\<bar>Entry.volume (snd (b ! k))\<bar> \<le> 2 ^ 53"
      by (simp add: exact_range_def list_all_length)
    with assms(3,4) take_volume_nth[OF that, of i q] show ?thesis by (auto split: if_splits)
  qed
  then show ?thesis by (simp add: exact_range_def list_all_length)
qed

text \<open>
  While no volume exceeds \<open>2^53\<close> the subtraction of line 111 is exact, and the volumes
  are conserved: on books with unique identities and initial volumes between 0 and
  \<open>2^53\<close> the matcher returns, and for every entry the quantity that the returned
  trades consume from it on its side does not exceed its original volume, and its final
  volume is the original volume minus that quantity and is not negative.
\<close>

lemma volume_conservation_in_range:
  assumes ub: "unique_identity bids" and ua: "unique_identity asks"
    and nb: "nonneg_volumes bids" and na: "nonneg_volumes asks"
    and xb: "exact_range bids" and xa: "exact_range asks"
  shows "\<exists>ts bids' asks'. find_best_arbitrage bids asks = Some (ts, bids', asks') \<and>
           conserved buy_identity ts asks asks' \<and> conserved sell_identity ts bids bids'"
proof -
  let ?I = "\<lambda>b a ts. conserved buy_identity ts asks a \<and> conserved sell_identity ts bids b \<and>
                      exact_range b \<and> exact_range a"
  have "\<exists>ts b' a'. arbitrage_loop bids asks [] = Some (ts, b', a') \<and> ?I b' a' ts"
  proof (rule unique_loop_total[where I = ?I, OF ub ua])
    show "?I bids asks []" using nb na xb xa by (simp add: conserved_init)
    show "?I b2 a2 (ts @ [t])"
      if u: "unique_identity b" "unique_identity a" and I: "?I b a ts"
        and it: "iteration b a = Some (t, b2, a2)" for b a ts t b2 a2
    proof -
      from u it obtain i j va vb where ij: "i < length a" "j < length b"
        "0 < Entry.volume (snd (a ! i))" "0 < Entry.volume (snd (b ! j))"
        "t = trade_of (snd (a ! i), snd (b ! j))" "1 \<le> Trade.volume t"
        "a2 = set_volume a i va" "b2 = set_volume b j vb"
        and ea: "Entry.volume (snd (a ! i)) \<le> 2 ^ 53 \<longrightarrow> va = Entry.volume (snd (a ! i)) - Trade.volume t"
        and eb: "Entry.volume (snd (b ! j)) \<le> 2 ^ 53 \<longrightarrow> vb = Entry.volume (snd (b ! j)) - Trade.volume t"
        by (rule unique_iteration_effect)
      from I ij(1,2) have "\<bar>Entry.volume (snd (a ! i))\<bar> \<le> 2 ^ 53"
        "\<bar>Entry.volume (snd (b ! j))\<bar> \<le> 2 ^ 53"
        by (simp_all add: exact_range_def list_all_length)
      then have "Entry.volume (snd (a ! i)) \<le> 2 ^ 53" "Entry.volume (snd (b ! j)) \<le> 2 ^ 53"
        by linarith+
      with ea eb have a2: "a2 = take_volume a i (Trade.volume t)"
        and b2: "b2 = take_volume b j (Trade.volume t)"
        by (simp_all add: ij(7,8) take_volume_set_volume)
      have side: "buy_identity t = identity (snd (a ! i))" "sell_identity t = identity (snd (b ! j))"
        and le: "Trade.volume t \<le> Entry.volume (snd (a ! i))" "Trade.volume t \<le> Entry.volume (snd (b ! j))"
        using ij(5) by (simp_all add: buy_identity_def sell_identity_def identity_def)
      from I have "exact_range a" "exact_range b" by simp_all
      with ij(1,2,6) le have "exact_range a2" "exact_range b2"
        unfolding a2 b2 by (simp_all add: exact_range_take_volume)
      with I ij(1,2) ua ub side le show ?thesis
        unfolding a2 b2 by (simp add: conserved_step)
    qed
  qed
  then show ?thesis unfolding find_best_arbitrage_def by blast
qed

text \<open>
  C4. The claim (on books with unique identities and no negative initial volume, the
  final volume of every entry is its original volume minus the quantity consumed from
  it) does not hold of the code above \<open>2^53\<close>. \<open>wide_bids\<close> and \<open>wide_asks\<close> have unique
  identities and positive volumes. The matcher records one trade of quantity
  \<open>2^53 + 1\<close>, the volume of the ask. The bid of volume \<open>2^53 + 3\<close> should be left with
  2; the subtraction of doubles in line 111 leaves it with 4.
\<close>

theorem conservation_lost_above_2_53:
  "unique_identity wide_bids \<and> unique_identity wide_asks \<and>
   nonneg_volumes wide_bids \<and> nonneg_volumes wide_asks \<and>
   find_best_arbitrage wide_bids wide_asks =
     Some ([dup_trade 9007199254740993],
           [(''ex2-0'', \<lparr>exchange = ''ex2'', fee = 0, price = 2, volume = 4\<rparr>)],
           [(''ex1-0'', \<lparr>exchange = ''ex1'', fee = 0, price = 1, volume = 0\<rparr>)]) \<and>
   consumed sell_identity [dup_trade 9007199254740993] (identity (snd (wide_bids ! 0))) =
     9007199254740993 \<and>
   Entry.volume (snd (wide_bids ! 0)) -
     consumed sell_identity [dup_trade 9007199254740993] (identity (snd (wide_bids ! 0))) = 2"
proof -
  have "find_best_arbitrage wide_bids wide_asks =
     Some ([dup_trade 9007199254740993],
           [(''ex2-0'', \<lparr>exchange = ''ex2'', fee = 0, price = 2, volume = 4\<rparr>)],
           [(''ex1-0'', \<lparr>exchange = ''ex1'', fee = 0, price = 1, volume = 0\<rparr>)])"
    unfolding find_best_arbitrage_def wide_bids_def wide_asks_def dup_trade_def
    by (simp add: arbitrage_loop.simps eval_defs wide_subtract subtract_quantity_self)
  then show ?thesis
    by (simp add: unique_identity_def nonneg_volumes_def consumed_def sell_identity_def
        identity_def wide_bids_def wide_asks_def dup_trade_def)
qed

end
